theory Spec2Isabelle
  imports Complex_Main "HOL-Library.Multiset"
begin

section \<open>Board engine: class NineMensMorris (src/main.py)\<close>

text \<open>
  A board cell is \<open>None\<close> or one of the two colour strings; the Python exceptions that
  the engine can raise are values of \<open>py_error\<close>. A log entry is the dictionary appended
  to \<open>self.moves\<close>; \<open>mv_timers\<close> is the clock snapshot that \<open>on_make_move\<close> writes
  into the last entry afterwards (the ISO timestamp written beside it is left out).
\<close>

datatype color = White | Black

datatype py_error = IndexError | KeyError | TypeError | UnboundLocalError | OverflowError

type_synonym cell = "color option"

record move_entry =
  mv_from :: "int option"
  mv_to :: "int option"
  mv_remove :: "int option"
  mv_player :: color
  mv_mill :: bool
  mv_timers :: "(real \<times> real) option"

record NineMensMorris =
  board :: "cell list"
  phase :: int
  current_player :: color
  white_pieces :: int
  black_pieces :: int
  total_pieces_placed :: int
  moves :: "move_entry list"

definition new_game :: NineMensMorris where
  "new_game = \<lparr> board = replicate 24 None, phase = 1, current_player = White,
     white_pieces = 9, black_pieces = 9, total_pieces_placed = 0, moves = [] \<rparr>"

definition mills :: "int list list" where
  "mills = [ [0, 1, 2], [3, 4, 5], [6, 7, 8], [9, 10, 11], [12, 13, 14], [15, 16, 17],
            [18, 19, 20], [21, 22, 23],
            [0, 9, 21], [3, 10, 18], [6, 11, 15], [1, 4, 7], [16, 19, 22], [8, 12, 17],
            [5, 13, 20], [2, 14, 23]]"

definition adjacents :: "(int \<times> int list) list" where
  "adjacents = [(0, [1, 9]), (1, [0, 2, 4]), (2, [1, 14]), (3, [4, 10]), (4, [1, 3, 5, 7]),
     (5, [4, 13]), (6, [7, 11]), (7, [4, 6, 8]), (8, [7, 12]), (9, [0, 10, 21]),
     (10, [3, 9, 11, 18]), (11, [6, 10, 15]), (12, [8, 13, 17]), (13, [5, 12, 14, 20]),
     (14, [2, 13, 23]), (15, [11, 16]), (16, [15, 17, 19]), (17, [12, 16]), (18, [10, 19]),
     (19, [16, 18, 20, 22]), (20, [13, 19]), (21, [9, 22]), (22, [19, 21, 23]),
     (23, [14, 22])]"

definition other :: "color \<Rightarrow> color" where
  "other c = (if c = White then Black else White)"

text \<open>
  Python list indexing: a negative index counts from the end, anything outside
  \<open>-len .. len - 1\<close> raises IndexError.
\<close>

definition py_index :: "'a list \<Rightarrow> int \<Rightarrow> nat option" where
  "py_index xs i =
     (if 0 \<le> i \<and> i < int (length xs) then Some (nat i)
      else if i < 0 \<and> - int (length xs) \<le> i then Some (nat (i + int (length xs)))
      else None)"

definition py_get :: "'a list \<Rightarrow> int \<Rightarrow> py_error + 'a" where
  "py_get xs i = (case py_index xs i of None \<Rightarrow> Inl IndexError | Some k \<Rightarrow> Inr (xs ! k))"

definition py_set :: "'a list \<Rightarrow> int \<Rightarrow> 'a \<Rightarrow> py_error + 'a list" where
  "py_set xs i v = (case py_index xs i of None \<Rightarrow> Inl IndexError | Some k \<Rightarrow> Inr (xs[k := v]))"

text \<open>\<open>all(self.board[pos] == player for pos in mill)\<close>, stopping at the first mismatch.\<close>

fun all_same :: "cell list \<Rightarrow> color \<Rightarrow> int list \<Rightarrow> py_error + bool" where
  "all_same b player [] = Inr True"
| "all_same b player (pos # rest) =
     (case py_get b pos of
        Inl e \<Rightarrow> Inl e
      | Inr c \<Rightarrow> if c = Some player then all_same b player rest else Inr False)"

text \<open>The loop \<open>for mill in self.mills\<close> of \<open>is_mill\<close>.\<close>

fun mill_scan :: "cell list \<Rightarrow> color \<Rightarrow> int \<Rightarrow> int list list \<Rightarrow> py_error + bool" where
  "mill_scan b player position [] = Inr False"
| "mill_scan b player position (mill # rest) =
     (if position \<in> set mill then
        (case all_same b player mill of
           Inl e \<Rightarrow> Inl e
         | Inr full \<Rightarrow> if full then Inr True else mill_scan b player position rest)
      else mill_scan b player position rest)"

definition is_mill :: "NineMensMorris \<Rightarrow> int \<Rightarrow> py_error + bool" where
  "is_mill g position =
     (case py_get (board g) position of
        Inl e \<Rightarrow> Inl e
      | Inr None \<Rightarrow> Inr False
      | Inr (Some player) \<Rightarrow> mill_scan (board g) player position mills)"

definition can_remove :: "NineMensMorris \<Rightarrow> int \<Rightarrow> py_error + bool" where
  "can_remove g position =
     (case py_get (board g) position of
        Inl e \<Rightarrow> Inl e
      | Inr None \<Rightarrow> Inr False
      | Inr (Some c) \<Rightarrow>
          if c = current_player g then Inr False
          else (case is_mill g position of Inl e \<Rightarrow> Inl e | Inr m \<Rightarrow> Inr (\<not> m)))"

text \<open>\<open>sum(1 for piece in self.board if piece == c)\<close>.\<close>

definition count_pieces :: "cell list \<Rightarrow> color \<Rightarrow> int" where
  "count_pieces b c = int (length (filter (\<lambda>piece. piece = Some c) b))"

text \<open>\<open>[i for i, piece in enumerate(self.board) if piece == c]\<close>.\<close>

definition positions_of :: "cell list \<Rightarrow> color \<Rightarrow> int list" where
  "positions_of b c = map int (filter (\<lambda>i. b ! i = Some c) [0 ..< length b])"

text \<open>\<open>any(self.can_remove(pos) for pos in opponent_pieces)\<close>, stopping at the first hit.\<close>

fun any_removable :: "NineMensMorris \<Rightarrow> int list \<Rightarrow> py_error + bool" where
  "any_removable g [] = Inr False"
| "any_removable g (pos # rest) =
     (case can_remove g pos of
        Inl e \<Rightarrow> Inl e
      | Inr ok \<Rightarrow> if ok then Inr True else any_removable g rest)"

text \<open>
  The first half of \<open>make_move\<close>, one branch per phase: the move is refused
  (\<open>return False\<close>), raises, or is carried out and yields \<open>mill_formed\<close>. The engine is
  returned as the branch left it, also when an exception is raised after a mutation.
\<close>

datatype stage = Formed bool | Refused | Exc py_error

definition place_piece :: "NineMensMorris \<Rightarrow> int \<Rightarrow> stage \<times> NineMensMorris" where
  "place_piece g to_pos =
     (case py_get (board g) to_pos of
        Inl e \<Rightarrow> (Exc e, g)
      | Inr (Some occupied) \<Rightarrow> (Refused, g)
      | Inr None \<Rightarrow>
          (case py_set (board g) to_pos (Some (current_player g)) of
             Inl e \<Rightarrow> (Exc e, g)
           | Inr b1 \<Rightarrow>
               let g1 = g\<lparr>board := b1\<rparr>;
                   g2 = (if current_player g1 = White
                         then g1\<lparr>white_pieces := white_pieces g1 - 1\<rparr>
                         else g1\<lparr>black_pieces := black_pieces g1 - 1\<rparr>);
                   g3 = g2\<lparr>total_pieces_placed := total_pieces_placed g2 + 1\<rparr>
               in (case is_mill g3 to_pos of
                     Inl e \<Rightarrow> (Exc e, g3)
                   | Inr m \<Rightarrow>
                       (Formed m, if total_pieces_placed g3 \<ge> 18 then g3\<lparr>phase := 2\<rparr> else g3))))"

text \<open>
  The part shared by the moving and the flying branch: ownership and emptiness checks,
  the adjacency check unless the mover has exactly three pieces, then the relocation.
\<close>

definition relocate :: "NineMensMorris \<Rightarrow> int option \<Rightarrow> int \<Rightarrow> stage \<times> NineMensMorris" where
  "relocate g from_pos to_pos =
     (case from_pos of
        None \<Rightarrow> (Exc TypeError, g)
      | Some f \<Rightarrow>
     (case py_get (board g) f of
        Inl e \<Rightarrow> (Exc e, g)
      | Inr src \<Rightarrow>
          if src \<noteq> Some (current_player g) then (Refused, g)
          else
     (case py_get (board g) to_pos of
        Inl e \<Rightarrow> (Exc e, g)
      | Inr (Some occupied) \<Rightarrow> (Refused, g)
      | Inr None \<Rightarrow>
     (case (if count_pieces (board g) (current_player g) = 3 then Inr True
            else (case map_of adjacents f of
                    None \<Rightarrow> Inl KeyError
                  | Some adj \<Rightarrow> Inr (to_pos \<in> set adj))) of
        Inl e \<Rightarrow> (Exc e, g)
      | Inr allowed \<Rightarrow>
          if \<not> allowed then (Refused, g)
          else
     (case py_set (board g) f None of
        Inl e \<Rightarrow> (Exc e, g)
      | Inr b1 \<Rightarrow>
     (case py_set b1 to_pos (Some (current_player g)) of
        Inl e \<Rightarrow> (Exc e, g\<lparr>board := b1\<rparr>)
      | Inr b2 \<Rightarrow>
          let g2 = g\<lparr>board := b2\<rparr>
          in (case is_mill g2 to_pos of
                Inl e \<Rightarrow> (Exc e, g2)
              | Inr m \<Rightarrow> (Formed m, g2))))))))"

definition first_half :: "NineMensMorris \<Rightarrow> int option \<Rightarrow> int \<Rightarrow> stage \<times> NineMensMorris" where
  "first_half g from_pos to_pos =
     (if phase g = 1 then place_piece g to_pos
      else if phase g = 2 then
        (case relocate g from_pos to_pos of
           (Formed m, g2) \<Rightarrow>
             (Formed m,
              if count_pieces (board g2) White = 3 \<or> count_pieces (board g2) Black = 3
              then g2\<lparr>phase := 3\<rparr> else g2)
         | r \<Rightarrow> r)
      else if phase g = 3 then relocate g from_pos to_pos
      else (Exc UnboundLocalError, g))"

record move_result =
  success :: bool
  mill_formed :: bool
  waiting_for_removal :: bool

datatype outcome = Rejected | Accepted move_result | Raised py_error

text \<open>
  The second half of \<open>make_move\<close>: the optional capture, the search for any capturable
  piece, the log entry, the side switch and the returned dictionary.
\<close>

definition second_half ::
  "NineMensMorris \<Rightarrow> int option \<Rightarrow> int \<Rightarrow> int option \<Rightarrow> bool \<Rightarrow> outcome \<times> NineMensMorris" where
  "second_half g from_pos to_pos remove_pos formed =
     (case (if formed then
              (case remove_pos of
                 None \<Rightarrow> Inr (False, g)
               | Some r \<Rightarrow>
                   (case can_remove g r of
                      Inl e \<Rightarrow> Inl e
                    | Inr ok \<Rightarrow>
                        if ok then
                          (case py_set (board g) r None of
                             Inl e \<Rightarrow> Inl e
                           | Inr b1 \<Rightarrow> Inr (True, g\<lparr>board := b1\<rparr>))
                        else Inr (False, g)))
            else Inr (False, g)) of
        Inl e \<Rightarrow> (Raised e, g)
      | Inr (piece_removed, g1) \<Rightarrow>
     (case (if formed
            then any_removable g1 (positions_of (board g1) (other (current_player g1)))
            else Inr False) of
        Inl e \<Rightarrow> (Raised e, g1)
      | Inr can_remove_any \<Rightarrow>
          let g2 = g1\<lparr>moves := moves g1 @
                     [\<lparr> mv_from = from_pos, mv_to = Some to_pos,
                        mv_remove = (if piece_removed then remove_pos else None),
                        mv_player = current_player g1, mv_mill = formed, mv_timers = None \<rparr>]\<rparr>;
              g3 = (if \<not> formed \<or> (formed \<and> piece_removed) \<or> (formed \<and> \<not> can_remove_any)
                    then g2\<lparr>current_player := other (current_player g2)\<rparr> else g2)
          in (Accepted \<lparr> success = True, mill_formed = formed,
                          waiting_for_removal = (formed \<and> remove_pos = None \<and> can_remove_any) \<rparr>,
              g3)))"

definition make_move ::
  "NineMensMorris \<Rightarrow> int option \<Rightarrow> int \<Rightarrow> int option \<Rightarrow> outcome \<times> NineMensMorris" where
  "make_move g from_pos to_pos remove_pos =
     (case first_half g from_pos to_pos of
        (Refused, g1) \<Rightarrow> (Rejected, g1)
      | (Exc e, g1) \<Rightarrow> (Raised e, g1)
      | (Formed m, g1) \<Rightarrow> second_half g1 from_pos to_pos remove_pos m)"


subsection \<open>Predicates and positions used to state the capture rule\<close>

text \<open>
  \<open>in_mill b c p\<close>: position \<open>p\<close> lies on a line whose three cells all hold colour \<open>c\<close>.
  \<open>capture_legal\<close> is the rule the engine applies; \<open>capture_legal_spec\<close> follows the
  specification's wording, which lifts the mill protection when every opposing piece
  stands in a mill.
\<close>

definition in_mill :: "cell list \<Rightarrow> color \<Rightarrow> int \<Rightarrow> bool" where
  "in_mill b c p = (\<exists>m \<in> set mills. p \<in> set m \<and> (\<forall>q \<in> set m. b ! nat q = Some c))"

definition capture_legal :: "cell list \<Rightarrow> color \<Rightarrow> int \<Rightarrow> bool" where
  "capture_legal b mover p =
     (b ! nat p = Some (other mover) \<and> \<not> in_mill b (other mover) p)"

definition capture_legal_spec :: "cell list \<Rightarrow> color \<Rightarrow> int \<Rightarrow> bool" where
  "capture_legal_spec b mover p =
     (b ! nat p = Some (other mover) \<and>
      (\<not> in_mill b (other mover) p \<or>
       (\<forall>q \<in> set (positions_of b (other mover)). in_mill b (other mover) q)))"

text \<open>Positions reached by play from the initial board, used as concrete inputs.\<close>

definition play :: "NineMensMorris \<Rightarrow> int \<Rightarrow> int option \<Rightarrow> NineMensMorris" where
  "play g to_pos remove_pos = snd (make_move g None to_pos remove_pos)"

definition all_in_mills_before :: NineMensMorris where
  "all_in_mills_before =
     play (play (play (play (play (play new_game 3 None) 0 None) 4 None) 1 None) 12 None)
       2 (Some 12)"

definition all_in_mills_after :: NineMensMorris where
  "all_in_mills_after = snd (first_half all_in_mills_before None 5)"

definition one_outside_mill :: NineMensMorris where
  "one_outside_mill = play (play all_in_mills_before 13 None) 6 None"

definition one_outside_mill_after :: NineMensMorris where
  "one_outside_mill_after = snd (first_half one_outside_mill None 5)"

definition seventeen_placed :: NineMensMorris where
  "seventeen_placed = foldl (\<lambda>g p. play g p None) new_game
     [0, 2, 1, 5, 3, 7, 4, 11, 6, 13, 8, 14, 9, 15, 10, 16, 12]"


section \<open>Clock: class LichessStyleTimer (src/main.py)\<close>

text \<open>
  The clock reads \<open>time.time()\<close>; here every operation takes that reading as an argument.
  Times are Python floats and are modelled as reals, so rounding is not represented; the
  statements proved below use only the order of the readings and which branch is taken.
  \<open>game_id\<close> is an opaque key and is left out of the record.
\<close>

datatype timer_state = TIMER_RUNNING | TIMER_PAUSED | TIMER_EXPIRED

record LichessStyleTimer =
  white_time :: real
  black_time :: real
  increment :: real
  active_player :: color
  state :: timer_state
  last_update :: real
  last_sync :: real
  move_count :: int
  game_start_time :: real

record clock_reading =
  white :: real
  black :: real
  server_time :: real

definition init_timer :: "real \<Rightarrow> real \<Rightarrow> real \<Rightarrow> real \<Rightarrow> LichessStyleTimer" where
  "init_timer w b inc now =
     \<lparr> white_time = w, black_time = b, increment = inc, active_player = White,
       state = TIMER_RUNNING, last_update = now, last_sync = now, move_count = 0,
       game_start_time = now \<rparr>"

definition get_current_times ::
  "LichessStyleTimer \<Rightarrow> real \<Rightarrow> clock_reading \<times> LichessStyleTimer" where
  "get_current_times tm current_time =
     (let tm1 = (if state tm = TIMER_RUNNING then
                   (let elapsed = current_time - last_update tm
                    in if active_player tm = White
                       then tm\<lparr>white_time := max 0 (white_time tm - elapsed)\<rparr>
                       else tm\<lparr>black_time := max 0 (black_time tm - elapsed)\<rparr>)
                 else tm);
          tm2 = tm1\<lparr>last_update := current_time\<rparr>
      in (\<lparr> white = max 0 (white_time tm2), black = max 0 (black_time tm2),
            server_time = current_time \<rparr>, tm2))"

definition switch_player ::
  "LichessStyleTimer \<Rightarrow> color \<Rightarrow> real \<Rightarrow> bool \<times> LichessStyleTimer" where
  "switch_player tm new_player current_time =
     (if state tm \<noteq> TIMER_RUNNING then (False, tm)
      else
        let elapsed = current_time - last_update tm;
            tm1 = (if active_player tm = White
                   then tm\<lparr>white_time := max 0 (white_time tm - elapsed)\<rparr>
                   else tm\<lparr>black_time := max 0 (black_time tm - elapsed)\<rparr>);
            increment_applied = (increment tm1 > 0 \<and> move_count tm1 \<ge> 0);
            tm2 = (if increment_applied then
                     (if active_player tm1 = White
                      then tm1\<lparr>white_time := white_time tm1 + increment tm1\<rparr>
                      else tm1\<lparr>black_time := black_time tm1 + increment tm1\<rparr>)
                   else tm1);
            tm3 = tm2\<lparr>active_player := new_player, move_count := move_count tm2 + 1,
                      last_update := current_time\<rparr>
        in (increment_applied, tm3))"

definition pause :: "LichessStyleTimer \<Rightarrow> real \<Rightarrow> LichessStyleTimer" where
  "pause tm now =
     (if state tm = TIMER_RUNNING then (snd (get_current_times tm now))\<lparr>state := TIMER_PAUSED\<rparr>
      else tm)"

definition resume :: "LichessStyleTimer \<Rightarrow> real \<Rightarrow> LichessStyleTimer" where
  "resume tm now =
     (if state tm = TIMER_PAUSED then tm\<lparr>state := TIMER_RUNNING, last_update := now\<rparr> else tm)"

definition remaining :: "clock_reading \<Rightarrow> color \<Rightarrow> real" where
  "remaining r c = (if c = White then white r else black r)"

definition time_of :: "LichessStyleTimer \<Rightarrow> color \<Rightarrow> real" where
  "time_of tm c = (if c = White then white_time tm else black_time tm)"

text \<open>A 3+2 clock as the constructor leaves it, and a clock in mid-game.\<close>

definition fresh_clock :: LichessStyleTimer where
  "fresh_clock = init_timer 180 180 2 0"

definition running_clock :: LichessStyleTimer where
  "running_clock = snd (switch_player (snd (switch_player fresh_clock Black 4)) White 9)"

section \<open>Rating engine: calculate_k_factor and update_ratings (src/main.py)\<close>

text \<open>
  Ratings are integers. The expected score and the raw change are Python floats, modelled
  as reals; \<open>round\<close> is Python 3's rounding to the nearest integer with ties to the even
  one. The float power \<open>10 ** ((black_rating - white_rating) / 400)\<close> raises
  OverflowError once its value exceeds the largest double, which for integer ratings is
  the case exactly from a difference of 123302 on (\<open>10 ** (123301 / 400)\<close> is about
  \<open>1.7886e308\<close>); a very negative exponent gives \<open>0.0\<close> without an error. The exception
  leaves \<open>update_ratings\<close> before anything has been written. Of a player's record the
  model keeps the rating of the game's rating type and the four counters; the rating
  history, the best-wins list, the title marker, the broadcast and the database writes of
  \<open>update_ratings\<close> are not represented.
\<close>

datatype game_result = WhiteWins | BlackWins | Draw

record rated_player =
  rating :: int
  games_played :: int
  wins :: int
  losses :: int
  draws :: int

record rating_update =
  white_after :: rated_player
  black_after :: rated_player
  white_rating_change :: int
  black_rating_change :: int

definition calculate_k_factor :: "int \<Rightarrow> int \<Rightarrow> int" where
  "calculate_k_factor r played = (if r < 1500 then 32 else if r < 2000 then 24 else 16)"

definition py_round :: "real \<Rightarrow> int" where
  "py_round x =
     (let f = \<lfloor>x\<rfloor>; d = x - of_int f
      in if d < 1 / 2 then f else if d > 1 / 2 then f + 1 else if even f then f else f + 1)"

definition expected_score :: "int \<Rightarrow> int \<Rightarrow> py_error + real" where
  "expected_score own opp =
     (if opp - own \<ge> 123302 then Inl OverflowError
      else Inr (1 / (1 + 10 powr (of_int (opp - own) / 400))))"

definition count_result :: "rated_player \<Rightarrow> rated_player \<Rightarrow> game_result \<Rightarrow> rated_player \<times> rated_player" where
  "count_result wp bp winner =
     (let wp1 = wp\<lparr>games_played := games_played wp + 1\<rparr>;
          bp1 = bp\<lparr>games_played := games_played bp + 1\<rparr>
      in if winner = WhiteWins then (wp1\<lparr>wins := wins wp1 + 1\<rparr>, bp1\<lparr>losses := losses bp1 + 1\<rparr>)
         else if winner = BlackWins then (wp1\<lparr>losses := losses wp1 + 1\<rparr>, bp1\<lparr>wins := wins bp1 + 1\<rparr>)
         else (wp1\<lparr>draws := draws wp1 + 1\<rparr>, bp1\<lparr>draws := draws bp1 + 1\<rparr>))"

text \<open>
  The two changes as they stand after rounding and after the minimum of one point for a
  decisive game, before the 400-point gap rule.
\<close>

definition rounded_changes ::
  "rated_player \<Rightarrow> rated_player \<Rightarrow> game_result \<Rightarrow> py_error + int \<times> int" where
  "rounded_changes white_player black_player winner =
     (let white_rating = rating white_player;
          black_rating = rating black_player;
          white_k = calculate_k_factor white_rating (games_played white_player);
          black_k = calculate_k_factor black_rating (games_played black_player)
      in case expected_score white_rating black_rating of
           Inl e \<Rightarrow> Inl e
         | Inr expected_white \<Rightarrow>
             let expected_black = 1 - expected_white;
                 white_score = (if winner = WhiteWins then 1 else if winner = BlackWins then 0 else 1 / 2);
                 black_score = (if winner = WhiteWins then 0 else if winner = BlackWins then 1 else 1 / 2);
                 wc = py_round (of_int white_k * (white_score - expected_white));
                 bc = py_round (of_int black_k * (black_score - expected_black));
                 wc1 = (if winner \<noteq> Draw \<and> \<bar>wc\<bar> < 1
                        then (if white_score > 1 / 2 then 1 else - 1) else wc);
                 bc1 = (if winner \<noteq> Draw \<and> \<bar>bc\<bar> < 1
                        then (if black_score > 1 / 2 then 1 else - 1) else bc)
             in Inr (wc1, bc1))"

definition update_ratings ::
  "string \<Rightarrow> rated_player \<Rightarrow> rated_player \<Rightarrow> game_result \<Rightarrow> py_error + rating_update" where
  "update_ratings game_type white_player black_player winner =
     (let white_rating = rating white_player; black_rating = rating black_player
      in if game_type = ''friendly'' then
           (let (wp, bp) = count_result white_player black_player winner
            in Inr \<lparr> white_after = wp, black_after = bp,
                     white_rating_change = 0, black_rating_change = 0 \<rparr>)
         else
           (case rounded_changes white_player black_player winner of
              Inl e \<Rightarrow> Inl e
            | Inr (wc1, bc1) \<Rightarrow>
                let elo_gap = \<bar>white_rating - black_rating\<bar>;
                    wc2 = (if elo_gap \<ge> 400 \<and> winner \<noteq> Draw \<and> winner = WhiteWins
                              \<and> white_rating > black_rating then 0 else wc1);
                    bc2 = (if elo_gap \<ge> 400 \<and> winner \<noteq> Draw
                              \<and> \<not> (winner = WhiteWins \<and> white_rating > black_rating)
                              \<and> winner = BlackWins \<and> black_rating > white_rating then 0 else bc1);
                    white_new_rating = max 50 (white_rating + wc2);
                    black_new_rating = max 50 (black_rating + bc2);
                    (wp, bp) = count_result (white_player\<lparr>rating := white_new_rating\<rparr>)
                                 (black_player\<lparr>rating := black_new_rating\<rparr>) winner
                in Inr \<lparr> white_after = wp, black_after = bp,
                         white_rating_change = wc2, black_rating_change = bc2 \<rparr>))"

definition newcomer :: rated_player where
  "newcomer = \<lparr> rating = 100, games_played = 0, wins = 0, losses = 0, draws = 0 \<rparr>"

definition master :: rated_player where
  "master = \<lparr> rating = 1900, games_played = 40, wins = 30, losses = 8, draws = 2 \<rparr>"

definition outlier :: rated_player where
  "outlier = \<lparr> rating = 125000, games_played = 3, wins = 3, losses = 0, draws = 0 \<rparr>"

definition club_player :: rated_player where
  "club_player = \<lparr> rating = 1400, games_played = 25, wins = 12, losses = 11, draws = 2 \<rparr>"


section \<open>Tournament scoring: update_tournament_scores (src/main.py)\<close>

text \<open>
  A tournament's \<open>players\<close> dictionary is an association list in insertion order (the
  order decides ties in the pairing sort). \<open>streaks\<close> is a map; a tournament without the
  key \<open>streaks\<close> is one with the empty map. Of the entries appended to \<open>wins\<close>, \<open>losses\<close>
  and \<open>draws\<close> the date and the game id are left out. The two ratings read from \<open>users\<close>
  are arguments.
\<close>

record result_entry =
  opponent :: string
  opponent_rating :: int
  re_berserk :: bool
  re_points :: "int option"
  re_streak :: "int option"
  re_color :: color

record series_entry =
  se_points :: int
  se_type :: string
  se_streak :: bool
  se_berserk :: bool

record tournament_player =
  score :: int
  tp_games_played :: int
  tp_rating :: int
  tp_wins :: "result_entry list"
  tp_losses :: "result_entry list"
  tp_draws :: "result_entry list"
  series :: "series_entry list option"

record tournament =
  t_status :: string
  players :: "(string \<times> tournament_player) list"
  streaks :: "string \<rightharpoonup> int"

record tournament_game =
  tournament_id :: "string option"
  tournament_points_disabled :: bool
  tg_white :: string
  tg_black :: string
  berserk_white :: bool
  berserk_black :: bool

definition joined :: "tournament \<Rightarrow> string \<Rightarrow> bool" where
  "joined t name = (map_of (players t) name \<noteq> None)"

text \<open>\<open>tournament['players'][name]\<close> updated in place by \<open>f\<close>.\<close>

definition upd_player :: "tournament \<Rightarrow> string \<Rightarrow> (tournament_player \<Rightarrow> tournament_player) \<Rightarrow> tournament" where
  "upd_player t name f =
     t\<lparr>players := map (\<lambda>(n, p). if n = name then (n, f p) else (n, p)) (players t)\<rparr>"

definition streak_of :: "tournament \<Rightarrow> string \<Rightarrow> int" where
  "streak_of t name = (case streaks t name of None \<Rightarrow> 0 | Some k \<Rightarrow> k)"

definition set_streak :: "tournament \<Rightarrow> string \<Rightarrow> int \<Rightarrow> tournament" where
  "set_streak t name k = t\<lparr>streaks := (streaks t)(name \<mapsto> k)\<rparr>"

definition push_series :: "series_entry \<Rightarrow> tournament_player \<Rightarrow> tournament_player" where
  "push_series e p = p\<lparr>series := Some ((case series p of None \<Rightarrow> [] | Some xs \<Rightarrow> xs) @ [e])\<rparr>"

definition win_points :: "bool \<Rightarrow> bool \<Rightarrow> int" where
  "win_points berserk has_streak =
     (if berserk \<and> has_streak then 5 else if has_streak then 4 else if berserk then 3 else 2)"

text \<open>The block run for the winner, and the block run for the loser, of a decisive game.\<close>

definition record_win ::
  "tournament \<Rightarrow> string \<Rightarrow> string \<Rightarrow> int \<Rightarrow> int \<Rightarrow> bool \<Rightarrow> color \<Rightarrow> tournament" where
  "record_win t name opp opp_rating old_streak berserk c =
     (if joined t name then
        (let t1 = set_streak t name (old_streak + 1);
             new_streak = streak_of t1 name;
             has_streak = (new_streak \<ge> 3);
             points = win_points berserk has_streak
         in upd_player t1 name (\<lambda>p.
              push_series \<lparr>se_points = points, se_type = ''win'', se_streak = has_streak,
                            se_berserk = berserk\<rparr>
                (p\<lparr>score := score p + points,
                   tp_wins := tp_wins p @
                     [\<lparr>opponent = opp, opponent_rating = opp_rating, re_berserk = berserk,
                       re_points = Some points, re_streak = Some new_streak, re_color = c\<rparr>]\<rparr>)))
      else t)"

definition record_loss ::
  "tournament \<Rightarrow> string \<Rightarrow> string \<Rightarrow> int \<Rightarrow> bool \<Rightarrow> color \<Rightarrow> tournament" where
  "record_loss t name opp opp_rating berserk c =
     (if joined t name then
        upd_player (set_streak t name 0) name (\<lambda>p.
          push_series \<lparr>se_points = 0, se_type = ''loss'', se_streak = False, se_berserk = berserk\<rparr>
            (p\<lparr>tp_losses := tp_losses p @
                 [\<lparr>opponent = opp, opponent_rating = opp_rating, re_berserk = berserk,
                   re_points = None, re_streak = None, re_color = c\<rparr>]\<rparr>))
      else t)"

definition record_draw ::
  "tournament \<Rightarrow> string \<Rightarrow> string \<Rightarrow> int \<Rightarrow> int \<Rightarrow> bool \<Rightarrow> color \<Rightarrow> tournament" where
  "record_draw t name opp opp_rating old_streak berserk c =
     (if joined t name then
        (let has_streak = (old_streak \<ge> 3);
             points = (if has_streak then 2 else 1);
             t1 = upd_player t name (\<lambda>p.
                    push_series \<lparr>se_points = points, se_type = ''draw'', se_streak = has_streak,
                                  se_berserk = berserk\<rparr>
                      (p\<lparr>score := score p + points,
                         tp_draws := tp_draws p @
                           [\<lparr>opponent = opp, opponent_rating = opp_rating, re_berserk = berserk,
                             re_points = Some points, re_streak = Some old_streak,
                             re_color = c\<rparr>]\<rparr>))
         in set_streak t1 name 0)
      else t)"

definition ensure_streak :: "tournament \<Rightarrow> string \<Rightarrow> tournament" where
  "ensure_streak t name = (if streaks t name = None then set_streak t name 0 else t)"

definition count_game :: "tournament \<Rightarrow> string \<Rightarrow> tournament" where
  "count_game t name =
     (if joined t name then upd_player t name (\<lambda>p. p\<lparr>tp_games_played := tp_games_played p + 1\<rparr>)
      else t)"

definition ensure_series :: "tournament \<Rightarrow> string \<Rightarrow> tournament" where
  "ensure_series t name =
     (if joined t name then
        upd_player t name (\<lambda>p. if series p = None then p\<lparr>series := Some []\<rparr> else p)
      else t)"

definition score_game ::
  "tournament \<Rightarrow> tournament_game \<Rightarrow> int \<Rightarrow> int \<Rightarrow> game_result \<Rightarrow> tournament" where
  "score_game t gd white_rating_at_game black_rating_at_game winner =
     (let white_player = tg_white gd; black_player = tg_black gd;
          t1 = ensure_streak (ensure_streak t white_player) black_player;
          t2 = count_game (count_game t1 white_player) black_player;
          white_streak = streak_of t2 white_player;
          black_streak = streak_of t2 black_player;
          white_berserk = berserk_white gd; black_berserk = berserk_black gd;
          t3 = ensure_series (ensure_series t2 white_player) black_player
      in if winner = WhiteWins then
           record_loss
             (record_win t3 white_player black_player black_rating_at_game white_streak
                white_berserk White)
             black_player white_player white_rating_at_game black_berserk Black
         else if winner = BlackWins then
           record_loss
             (record_win t3 black_player white_player white_rating_at_game black_streak
                black_berserk Black)
             white_player black_player black_rating_at_game white_berserk White
         else
           record_draw
             (record_draw t3 white_player black_player black_rating_at_game white_streak
                white_berserk White)
             black_player white_player white_rating_at_game black_streak black_berserk Black)"

definition update_tournament_scores ::
  "(string \<rightharpoonup> tournament) \<Rightarrow> tournament_game \<Rightarrow> int \<Rightarrow> int \<Rightarrow> game_result
     \<Rightarrow> (string \<rightharpoonup> tournament)" where
  "update_tournament_scores ts gd white_rating_at_game black_rating_at_game winner =
     (case tournament_id gd of
        None \<Rightarrow> ts
      | Some tid \<Rightarrow>
          if tid = [] then ts
          else (case ts tid of
                  None \<Rightarrow> ts
                | Some t \<Rightarrow>
                    if tournament_points_disabled gd then ts
                    else ts(tid \<mapsto>
                      score_game t gd white_rating_at_game black_rating_at_game winner)))"

text \<open>
  The tournament as \<open>score_game\<close> has it when the result is recorded: both streak
  entries present, the game counted for both players, both series lists present.
\<close>

definition prepared :: "tournament \<Rightarrow> string \<Rightarrow> string \<Rightarrow> tournament" where
  "prepared t w b =
     ensure_series (ensure_series (count_game (count_game
       (ensure_streak (ensure_streak t w) b) w) b) w) b"

definition score_in :: "(string \<rightharpoonup> tournament) \<Rightarrow> string \<Rightarrow> string \<Rightarrow> int option" where
  "score_in ts tid name =
     (case ts tid of None \<Rightarrow> None | Some t \<Rightarrow> map_option score (map_of (players t) name))"

definition streak_in :: "(string \<rightharpoonup> tournament) \<Rightarrow> string \<Rightarrow> string \<Rightarrow> int option" where
  "streak_in ts tid name = (case ts tid of None \<Rightarrow> None | Some t \<Rightarrow> streaks t name)"

definition entrant :: "int \<Rightarrow> int \<Rightarrow> tournament_player" where
  "entrant sc r = \<lparr> score = sc, tp_games_played = 0, tp_rating = r, tp_wins = [], tp_losses = [],
     tp_draws = [], series = Some [] \<rparr>"

definition arena :: tournament where
  "arena = \<lparr> t_status = ''active'',
     players = [(''anna'', entrant 8 1500), (''ben'', entrant 3 1480)],
     streaks = [''anna'' \<mapsto> 3, ''ben'' \<mapsto> 1] \<rparr>"

definition arena_game :: tournament_game where
  "arena_game = \<lparr> tournament_id = Some ''t1'', tournament_points_disabled = False,
     tg_white = ''anna'', tg_black = ''ben'', berserk_white = True, berserk_black = False \<rparr>"

section \<open>Pairing engine: lichess_style_pairing (src/main.py)\<close>

text \<open>
  The module-level registries that the pairing reads are the fields of \<open>pairing_world\<close>.
  An entry of \<open>games\<close> keeps the three keys that \<open>is_player_in_game\<close> reads. A tournament
  player always carries \<open>score\<close> and \<open>rating\<close>, so the defaults of \<open>player_data.get\<close> are
  never used.
\<close>

record game_ref =
  gr_white :: "string option"
  gr_black :: "string option"
  gr_status :: "string option"

record pairing_world =
  tournaments :: "string \<rightharpoonup> tournament"
  paused_users :: "string set"
  players_in_game_menu :: "string set"
  games :: "game_ref list"
  tournament_recent_opponents :: "string \<rightharpoonup> (string \<rightharpoonup> string)"

record pool_entry =
  username :: string
  pe_score :: int
  pe_rating :: int

definition is_player_in_game :: "game_ref list \<Rightarrow> string \<Rightarrow> bool" where
  "is_player_in_game gs name =
     list_ex (\<lambda>g. (gr_white g = Some name \<or> gr_black g = Some name)
                   \<and> gr_status g \<noteq> Some ''finished'') gs"

definition get_last_opponent :: "pairing_world \<Rightarrow> string \<Rightarrow> string \<Rightarrow> string option" where
  "get_last_opponent w tid name =
     (case tournament_recent_opponents w tid of None \<Rightarrow> None | Some m \<Rightarrow> m name)"

definition set_last_opponent :: "pairing_world \<Rightarrow> string \<Rightarrow> string \<Rightarrow> string \<Rightarrow> pairing_world" where
  "set_last_opponent w tid player1 player2 =
     (let m = (case tournament_recent_opponents w tid of None \<Rightarrow> Map.empty | Some m \<Rightarrow> m)
      in w\<lparr>tournament_recent_opponents :=
             (tournament_recent_opponents w)(tid \<mapsto> m(player1 \<mapsto> player2, player2 \<mapsto> player1))\<rparr>)"

definition available_players :: "pairing_world \<Rightarrow> tournament \<Rightarrow> pool_entry list" where
  "available_players w t =
     map (\<lambda>(name, pd). \<lparr>username = name, pe_score = score pd, pe_rating = tp_rating pd\<rparr>)
       (filter (\<lambda>(name, pd). name \<notin> paused_users w \<and> name \<notin> players_in_game_menu w
                              \<and> \<not> is_player_in_game (games w) name)
          (players t))"

text \<open>
  \<open>sort(key=lambda x: (x['score'], x['rating']), reverse=True)\<close>: a stable sort in
  descending order of the pair, so entries with equal keys keep their order.
  \<open>key_greater a b\<close> is the tuple comparison \<open>key a > key b\<close>.
\<close>

definition key_greater :: "pool_entry \<Rightarrow> pool_entry \<Rightarrow> bool" where
  "key_greater a b =
     (pe_score a > pe_score b \<or> (pe_score a = pe_score b \<and> pe_rating a > pe_rating b))"

fun insert_desc :: "pool_entry \<Rightarrow> pool_entry list \<Rightarrow> pool_entry list" where
  "insert_desc x [] = [x]"
| "insert_desc x (y # ys) = (if key_greater y x then y # insert_desc x ys else x # y # ys)"

definition sort_desc :: "pool_entry list \<Rightarrow> pool_entry list" where
  "sort_desc xs = foldr insert_desc xs []"

text \<open>
  The inner loop \<open>for j in range(i + 1, len(available_players))\<close> over the entries after
  the player, and the outer loop over the sorted pool with the set \<open>paired\<close>.
  \<open>lo\<close> is \<open>get_last_opponent(tournament_id, _)\<close>.
\<close>

fun best_opponent ::
  "(string \<Rightarrow> string option) \<Rightarrow> string set \<Rightarrow> pool_entry \<Rightarrow> pool_entry list \<Rightarrow> pool_entry option" where
  "best_opponent lo paired player [] = None"
| "best_opponent lo paired player (candidate # rest) =
     (if username candidate \<in> paired then best_opponent lo paired player rest
      else if Some (username candidate) = lo (username player)
        then best_opponent lo paired player rest
      else if Some (username player) = lo (username candidate)
        then best_opponent lo paired player rest
      else Some candidate)"

fun pair_loop ::
  "(string \<Rightarrow> string option) \<Rightarrow> string set \<Rightarrow> pool_entry list \<Rightarrow> (string \<times> string) list" where
  "pair_loop lo paired [] = []"
| "pair_loop lo paired (player # rest) =
     (if username player \<in> paired then pair_loop lo paired rest
      else (case best_opponent lo paired player rest of
              None \<Rightarrow> pair_loop lo paired rest
            | Some opp \<Rightarrow>
                (username player, username opp)
                  # pair_loop lo (insert (username opp) (insert (username player) paired)) rest))"

definition lichess_style_pairing :: "pairing_world \<Rightarrow> string \<Rightarrow> (string \<times> string) list" where
  "lichess_style_pairing w tid =
     (case tournaments w tid of
        None \<Rightarrow> []
      | Some t \<Rightarrow>
          if t_status t \<noteq> ''active'' then []
          else pair_loop (get_last_opponent w tid) {} (sort_desc (available_players w t)))"

text \<open>Notions used to state the pairing properties.\<close>

definition blocked :: "(string \<Rightarrow> string option) \<Rightarrow> string \<Rightarrow> string \<Rightarrow> bool" where
  "blocked lo a b = (lo a = Some b \<or> lo b = Some a)"

definition names_of :: "(string \<times> string) list \<Rightarrow> string set" where
  "names_of ps = fst ` set ps \<union> snd ` set ps"

definition sorted_pool :: "pairing_world \<Rightarrow> string \<Rightarrow> pool_entry list" where
  "sorted_pool w tid =
     (case tournaments w tid of None \<Rightarrow> [] | Some t \<Rightarrow> sort_desc (available_players w t))"

text \<open>
  The round as the claim words it, for a list \<open>names\<close> of pool names in sorted order and
  a list \<open>R\<close> of pairs. \<open>partners R a\<close> are the players that \<open>R\<close> pairs with \<open>a\<close> as the
  first of the pair. \<open>settled paired R pre\<close> are the players no longer free when the
  walk reaches the entry after the prefix \<open>pre\<close>: those in \<open>paired\<close> and those in a pair
  chosen by a player of \<open>pre\<close>. \<open>first_choice\<close> is the first later candidate that is
  still free and not barred by the last-opponent relation. \<open>walk_round\<close> says that the
  pairs are listed in the order in which their first players stand in the pool, and that
  each player who is still free is paired with its first choice and with nobody else,
  while a settled player and a player without a choice pick nobody.
\<close>

definition partners :: "(string \<times> string) list \<Rightarrow> string \<Rightarrow> string set" where
  "partners R a = snd ` set (filter (\<lambda>(x, y). x = a) R)"

definition settled :: "string set \<Rightarrow> (string \<times> string) list \<Rightarrow> string list \<Rightarrow> string set" where
  "settled paired R pre = paired \<union> names_of (filter (\<lambda>(x, y). x \<in> set pre) R)"

definition first_choice ::
  "(string \<Rightarrow> string option) \<Rightarrow> string set \<Rightarrow> string \<Rightarrow> string list \<Rightarrow> string option" where
  "first_choice lo taken a post = find (\<lambda>d. d \<notin> taken \<and> \<not> blocked lo a d) post"

definition walk_round ::
  "(string \<Rightarrow> string option) \<Rightarrow> string set \<Rightarrow> string list \<Rightarrow> (string \<times> string) list \<Rightarrow> bool" where
  "walk_round lo paired names R =
     ((\<forall>i \<in> set [0 ..< length R]. \<exists>k \<in> set [0 ..< length names].
          names ! k = fst (R ! i) \<and> fst ` set (take i R) \<subseteq> set (take k names)) \<and>
      (\<forall>k \<in> set [0 ..< length names].
          partners R (names ! k) =
            (if names ! k \<in> settled paired R (take k names) then {}
             else (case first_choice lo (settled paired R (take k names)) (names ! k)
                          (drop (Suc k) names) of
                     None \<Rightarrow> {}
                   | Some c \<Rightarrow> {c}))))"

text \<open>The same two conditions stated over the splits of the two lists, as the proofs use them.\<close>

definition walk_split ::
  "(string \<Rightarrow> string option) \<Rightarrow> string set \<Rightarrow> string list \<Rightarrow> (string \<times> string) list \<Rightarrow> bool" where
  "walk_split lo paired names R =
     ((\<forall>r1 a b r2. R = r1 @ (a, b) # r2 \<longrightarrow>
          (\<exists>pre post. names = pre @ a # post \<and> fst ` set r1 \<subseteq> set pre)) \<and>
      (\<forall>pre a post. names = pre @ a # post \<longrightarrow>
          partners R a =
            (if a \<in> settled paired R pre then {}
             else (case first_choice lo (settled paired R pre) a post of
                     None \<Rightarrow> {}
                   | Some c \<Rightarrow> {c}))))"

definition four_players :: tournament where
  "four_players = \<lparr> t_status = ''active'',
     players = [(''player3'', entrant 8 1400), (''player1'', entrant 10 1500),
                (''player4'', entrant 8 1400), (''player2'', entrant 10 1500)],
     streaks = Map.empty \<rparr>"

definition first_round :: pairing_world where
  "first_round = \<lparr> tournaments = [''t1'' \<mapsto> four_players], paused_users = {},
     players_in_game_menu = {}, games = [], tournament_recent_opponents = Map.empty \<rparr>"

definition second_round :: pairing_world where
  "second_round =
     set_last_opponent (set_last_opponent first_round ''t1'' ''player1'' ''player2'')
       ''t1'' ''player3'' ''player4''"

text \<open>
  A world holding one active tournament \<open>''t''\<close> whose players, in joining order, have the
  given names, scores and ratings; nobody is paused, in the post-game menu or in a game,
  and no last opponent is recorded.
\<close>

definition fresh_round :: "(string \<times> int \<times> int) list \<Rightarrow> pairing_world" where
  "fresh_round ps =
     \<lparr> tournaments =
         [''t'' \<mapsto> \<lparr> t_status = ''active'',
                    players = map (\<lambda>(n, s, r). (n, entrant s r)) ps,
                    streaks = Map.empty \<rparr>],
       paused_users = {}, players_in_game_menu = {}, games = [],
       tournament_recent_opponents = Map.empty \<rparr>"

section \<open>Match session: the handler on_make_move (src/main.py)\<close>

text \<open>
  A session is the \<open>games[room_id]\<close> dictionary together with the clock registered for the
  room in \<open>game_timers\<close>; \<open>game_data['moves']\<close> is the engine's own log. What the handler
  sends or triggers outside the session (socket events, the rating and tournament score
  updates, the re-queueing) is returned as a list of events; the featured-game broadcasts
  are left out. All clock reads of one handler call use the same wall time \<open>now\<close>.
\<close>

datatype event =
    GameCanceled
  | FirstMoveCountdownStart
  | FirstMoveCountdownComplete
  | TimerUpdate bool
  | TimerSync bool
  | MoveMade
  | GameOver game_result
  | RatingsUpdated game_result
  | TournamentScoresUpdated game_result
  | PlayersRequeued
  | Uncaught py_error

record match_session =
  ms_white :: string
  ms_black :: string
  status :: "string option"
  game :: NineMensMorris
  ms_waiting_for_removal :: "bool option"
  white_first_move_made :: bool
  black_first_move_made :: bool
  waiting_for_first_move :: "color option"
  first_move_deadline :: "real option"
  timer_started :: bool
  positions :: "cell list list"
  timers :: "(int \<times> int) option"
  ms_winner :: "game_result option"
  end_reason :: "string option"
  timer :: "LichessStyleTimer option"

record move_request =
  rq_from :: "int option"
  rq_to :: int
  rq_remove :: "int option"

text \<open>
  \<open>get_winner\<close>: \<open>move.get('remove')\<close> is tested for truth, so a capture on position 0
  does not count as a capture in the fifty-move window.
\<close>

definition get_winner :: "NineMensMorris \<Rightarrow> game_result option" where
  "get_winner g =
     (if phase g \<ge> 2 \<and> count_pieces (board g) White \<le> 2 then Some BlackWins
      else if phase g \<ge> 2 \<and> count_pieces (board g) Black \<le> 2 then Some WhiteWins
      else if length (moves g) \<ge> 50
              \<and> \<not> list_ex (\<lambda>m. mv_mill m \<or> (case mv_remove m of None \<Rightarrow> False | Some r \<Rightarrow> r \<noteq> 0))
                     (drop (length (moves g) - 50) (moves g))
        then Some Draw
      else None)"

definition switch_player_timer :: "match_session \<Rightarrow> color \<Rightarrow> real \<Rightarrow> event list \<times> match_session" where
  "switch_player_timer s new_player now =
     (case timer s of
        None \<Rightarrow> ([], s)
      | Some tm \<Rightarrow>
          let (old_times, tm1) = get_current_times tm now;
              (increment_applied, tm2) = switch_player tm1 new_player now;
              (current_times, tm3) = get_current_times tm2 now
          in ([TimerUpdate increment_applied, TimerSync increment_applied],
              s\<lparr>timer := Some tm3,
                timers := Some (\<lfloor>white current_times\<rfloor>, \<lfloor>black current_times\<rfloor>)\<rparr>))"

text \<open>\<open>stop_game_timer\<close> pauses the clock, marks it expired and drops it from the registry.\<close>

definition stop_game_timer :: "match_session \<Rightarrow> match_session" where
  "stop_game_timer s = s\<lparr>timer := None\<rparr>"

definition resume_for_play :: "LichessStyleTimer option \<Rightarrow> real \<Rightarrow> LichessStyleTimer option" where
  "resume_for_play tmo now = map_option (\<lambda>tm. (resume tm now)\<lparr>state := TIMER_RUNNING\<rparr>) tmo"

definition first_move_handling :: "match_session \<Rightarrow> color \<Rightarrow> real \<Rightarrow> event list \<times> match_session" where
  "first_move_handling s player_color now =
     (if status s = Some ''waiting_first_move'' then
        (if player_color = White \<and> \<not> white_first_move_made s then
           ([FirstMoveCountdownStart],
            s\<lparr>white_first_move_made := True, waiting_for_first_move := Some Black,
              first_move_deadline := Some (now + 20)\<rparr>)
         else if player_color = Black \<and> \<not> black_first_move_made s then
           ([FirstMoveCountdownComplete],
            s\<lparr>black_first_move_made := True, waiting_for_first_move := None,
              status := Some ''playing'', timer_started := True,
              timer := resume_for_play (timer s) now\<rparr>)
         else ([], s))
      else if \<not> timer_started s then
        ([], s\<lparr>timer_started := True, timer := resume_for_play (timer s) now,
               status := Some ''playing''\<rparr>)
      else ([], s))"

definition finish_if_over :: "match_session \<Rightarrow> event list \<times> match_session" where
  "finish_if_over s =
     (case get_winner (game s) of
        None \<Rightarrow> ([], s)
      | Some w \<Rightarrow>
          ([RatingsUpdated w, GameOver w, TournamentScoresUpdated w, PlayersRequeued],
           stop_game_timer
             (s\<lparr>status := Some ''finished'', ms_winner := Some w, end_reason := Some ''normal''\<rparr>)))"

text \<open>The branch taken while a capture is awaited and \<open>remove_pos\<close> is given.\<close>

definition claim_removal :: "match_session \<Rightarrow> color \<Rightarrow> int \<Rightarrow> real \<Rightarrow> event list \<times> match_session" where
  "claim_removal s player_color r now =
     (case can_remove (game s) r of
        Inl e \<Rightarrow> ([Uncaught e], s)
      | Inr ok \<Rightarrow>
          if \<not> ok then ([], s)
          else
            (case py_set (board (game s)) r None of
               Inl e \<Rightarrow> ([Uncaught e], s)
             | Inr b1 \<Rightarrow>
                 let g1 = (game s)\<lparr>board := b1\<rparr>;
                     g2 = g1\<lparr>current_player := other (current_player g1)\<rparr>;
                     s1 = s\<lparr>game := g2, ms_waiting_for_removal := Some False\<rparr>;
                     (ev1, s2) = switch_player_timer s1 (current_player g2) now;
                     s3 = s2\<lparr>game := (game s2)\<lparr>moves := moves (game s2) @
                            [\<lparr>mv_from = None, mv_to = None, mv_remove = Some r,
                              mv_player = player_color, mv_mill = False, mv_timers = None\<rparr>]\<rparr>\<rparr>;
                     (ev2, s4) = finish_if_over s3
                 in (ev1 @ [MoveMade] @ ev2, s4)))"

text \<open>
  \<open>game_data['moves'][-1]['timers'] = ...\<close>; the log is not empty there, since
  \<open>make_move\<close> has just appended to it.
\<close>

definition stamp_last :: "NineMensMorris \<Rightarrow> real \<times> real \<Rightarrow> NineMensMorris" where
  "stamp_last g tv =
     g\<lparr>moves := (case rev (moves g) of
                    [] \<Rightarrow> []
                  | m # ms \<Rightarrow> rev ms @ [m\<lparr>mv_timers := Some tv\<rparr>])\<rparr>"

text \<open>The branch that calls \<open>game.make_move\<close>.\<close>

definition normal_move :: "match_session \<Rightarrow> color \<Rightarrow> move_request \<Rightarrow> real \<Rightarrow> event list \<times> match_session" where
  "normal_move s player_color rq now =
     (case make_move (game s) (rq_from rq) (rq_to rq) (rq_remove rq) of
        (Raised e, g1) \<Rightarrow> ([Uncaught e], s\<lparr>game := g1\<rparr>)
      | (Rejected, g1) \<Rightarrow> ([], s\<lparr>game := g1\<rparr>)
      | (Accepted res, g1) \<Rightarrow>
          if \<not> success res then ([], s\<lparr>game := g1\<rparr>)
          else
            let s1 = s\<lparr>game := g1, positions := positions s @ [board g1]\<rparr>;
                s2 = (case timer s1 of
                        None \<Rightarrow> s1
                      | Some tm \<Rightarrow>
                          let (current_times, tm1) = get_current_times tm now
                          in s1\<lparr>timer := Some tm1,
                                game := stamp_last (game s1)
                                          (white current_times, black current_times)\<rparr>);
                (ev1, s3) =
                  (if mill_formed res \<and> waiting_for_removal res then
                     ([], s2\<lparr>ms_waiting_for_removal := Some True,
                             game := (game s2)\<lparr>current_player := player_color\<rparr>\<rparr>)
                   else switch_player_timer (s2\<lparr>ms_waiting_for_removal := None\<rparr>)
                          (current_player (game s2)) now);
                (ev2, s4) = finish_if_over s3
            in (ev1 @ [MoveMade] @ ev2, s4))"

definition on_make_move ::
  "real \<Rightarrow> string option \<Rightarrow> match_session option \<Rightarrow> move_request
     \<Rightarrow> event list \<times> match_session option" where
  "on_make_move now user game_data rq =
     (case game_data of
        None \<Rightarrow> ([], None)
      | Some s \<Rightarrow>
          if user \<noteq> Some (ms_white s) \<and> user \<noteq> Some (ms_black s) then ([], Some s)
          else if status s = Some ''canceled'' \<or> status s = Some ''finished''
            then ([GameCanceled], Some s)
          else
            let player_color = (if user = Some (ms_white s) then White else Black)
            in if current_player (game s) \<noteq> player_color
                    \<and> ms_waiting_for_removal s \<noteq> Some True
               then ([], Some s)
               else
                 let (ev0, s1) = first_move_handling s player_color now
                 in (case (if ms_waiting_for_removal s1 = Some True then rq_remove rq else None) of
                       Some r \<Rightarrow>
                         (let (ev, s2) = claim_removal s1 player_color r now
                          in (ev0 @ ev, Some s2))
                     | None \<Rightarrow>
                         (let (ev, s2) = normal_move s1 player_color rq now
                          in (ev0 @ ev, Some s2))))"

definition open_session :: match_session where
  "open_session =
     \<lparr> ms_white = ''anna'', ms_black = ''ben'', status = Some ''playing'',
       game = all_in_mills_before, ms_waiting_for_removal = None,
       white_first_move_made = True, black_first_move_made = True,
       waiting_for_first_move = None, first_move_deadline = None, timer_started = True,
       positions = [], timers = None, ms_winner = None, end_reason = None,
       timer = Some running_clock \<rparr>"

definition closed_session :: match_session where
  "closed_session =
     open_session\<lparr>status := Some ''finished'', ms_winner := Some WhiteWins,
                   end_reason := Some ''resign'', timer := None\<rparr>"

definition a_move :: move_request where
  "a_move = \<lparr> rq_from = None, rq_to = 13, rq_remove = None \<rparr>"

section \<open>Verification of the board engine\<close>

subsection \<open>Indexing and the mill test on a 24-cell board\<close>

lemma py_get_in_range:
  "0 \<le> i \<Longrightarrow> i < int (length xs) \<Longrightarrow> py_get xs i = Inr (xs ! nat i)"
  by (simp add: py_get_def py_index_def)

lemma py_set_in_range:
  "0 \<le> i \<Longrightarrow> i < int (length xs) \<Longrightarrow> py_set xs i v = Inr (xs[nat i := v])"
  by (simp add: py_set_def py_index_def)

lemma py_index_lt: "py_index xs i = Some k \<Longrightarrow> k < length xs"
  by (auto simp: py_index_def split: if_splits)

lemma py_get_index: "py_index xs i = Some k \<Longrightarrow> py_get xs i = Inr (xs ! k)"
  by (simp add: py_get_def)

lemma py_set_index: "py_index xs i = Some k \<Longrightarrow> py_set xs i v = Inr (xs[k := v])"
  by (simp add: py_set_def)

lemma py_index_update [simp]: "py_index (xs[k := v]) i = py_index xs i"
  by (simp add: py_index_def)

lemma py_index_in_range: "0 \<le> i \<Longrightarrow> i < int (length xs) \<Longrightarrow> py_index xs i = Some (nat i)"
  by (simp add: py_index_def)

lemma other_neq [simp]: "other c \<noteq> c" "c \<noteq> other c"
  by (simp_all add: other_def)

lemma all_same_in_range:
  "\<forall>q \<in> set ps. 0 \<le> q \<and> q < int (length b) \<Longrightarrow>
   all_same b c ps = Inr (\<forall>q \<in> set ps. b ! nat q = Some c)"
  by (induction ps) (auto simp: py_get_in_range)

lemma mill_scan_in_range:
  "\<forall>m \<in> set ms. \<forall>q \<in> set m. 0 \<le> q \<and> q < int (length b) \<Longrightarrow>
   mill_scan b c p ms = Inr (\<exists>m \<in> set ms. p \<in> set m \<and> (\<forall>q \<in> set m. b ! nat q = Some c))"
  by (induction ms) (auto simp: all_same_in_range)

lemma mills_in_range: "\<forall>m \<in> set mills. \<forall>q \<in> set m. 0 \<le> q \<and> q < 24"
  by (simp add: mills_def)

lemma is_mill_24:
  assumes "length (board g) = 24" "0 \<le> p" "p < 24"
  shows "is_mill g p = Inr (\<exists>c. board g ! nat p = Some c \<and> in_mill (board g) c p)"
proof (cases "board g ! nat p")
  case None
  then show ?thesis using assms by (simp add: is_mill_def py_get_in_range)
next
  case (Some c)
  have "mill_scan (board g) c p mills = Inr (in_mill (board g) c p)"
    unfolding in_mill_def using mills_in_range assms(1) by (intro mill_scan_in_range) simp
  then show ?thesis using Some assms by (simp add: is_mill_def py_get_in_range)
qed

lemma is_mill_total:
  assumes "length (board g) = 24" "py_index (board g) p = Some k"
  shows "\<exists>m. is_mill g p = Inr m"
proof -
  have "\<And>c. mill_scan (board g) c p mills =
        Inr (\<exists>m \<in> set mills. p \<in> set m \<and> (\<forall>q \<in> set m. board g ! nat q = Some c))"
    using mills_in_range assms(1) by (intro mill_scan_in_range) simp
  then show ?thesis using assms(2)
    by (auto simp: is_mill_def py_get_index split: option.splits)
qed

lemma can_remove_24:
  assumes "length (board g) = 24" "0 \<le> p" "p < 24"
  shows "can_remove g p =
         Inr (board g ! nat p = Some (other (current_player g)) \<and>
              \<not> in_mill (board g) (other (current_player g)) p)"
proof (cases "board g ! nat p")
  case None
  then show ?thesis using assms by (simp add: can_remove_def py_get_in_range)
next
  case (Some c)
  show ?thesis
  proof (cases "c = current_player g")
    case True
    then show ?thesis using Some assms
      by (auto simp: can_remove_def py_get_in_range other_def)
  next
    case False
    then have c: "c = other (current_player g)"
      by (cases c; cases "current_player g") (simp_all add: other_def)
    show ?thesis using Some False assms c
      by (simp add: can_remove_def py_get_in_range is_mill_24)
  qed
qed

lemma can_remove_total:
  assumes "length (board g) = 24" "py_index (board g) p = Some k"
  shows "\<exists>ok. can_remove g p = Inr ok"
proof -
  obtain m where "is_mill g p = Inr m" using is_mill_total[OF assms] by blast
  then show ?thesis using assms(2)
    by (auto simp: can_remove_def py_get_index split: option.splits)
qed

lemma can_remove_True_cell:
  assumes "can_remove g r = Inr True"
  shows "\<exists>k. py_index (board g) r = Some k \<and> k < length (board g) \<and>
             board g ! k = Some (other (current_player g))"
proof -
  from assms obtain k where k: "py_index (board g) r = Some k"
    by (cases "py_index (board g) r") (simp_all add: can_remove_def py_get_def)
  from assms k have "board g ! k = Some (other (current_player g))"
    by (cases "current_player g")
       (auto simp: can_remove_def py_get_index other_def split: option.splits if_splits sum.splits
             intro: color.exhaust)
  with k py_index_lt[OF k] show ?thesis by blast
qed

lemma positions_of_in_range: "\<forall>q \<in> set (positions_of b c). 0 \<le> q \<and> q < int (length b)"
  by (auto simp: positions_of_def)

lemma positions_of_member:
  assumes "0 \<le> q" "q < int (length b)" "b ! nat q = Some c"
  shows "q \<in> set (positions_of b c)"
proof -
  have "nat q \<in> set (filter (\<lambda>i. b ! i = Some c) [0 ..< length b])" using assms by auto
  then have "int (nat q) \<in> int ` set (filter (\<lambda>i. b ! i = Some c) [0 ..< length b])"
    by (rule imageI)
  moreover have "int (nat q) = q" using assms(1) by simp
  ultimately show ?thesis unfolding positions_of_def set_map by simp
qed

lemma any_removable_in_range:
  assumes "length (board g) = 24"
  shows "\<forall>q \<in> set ps. 0 \<le> q \<and> q < 24 \<Longrightarrow>
         any_removable g ps =
           Inr (\<exists>q \<in> set ps. capture_legal (board g) (current_player g) q)"
  by (induction ps) (auto simp: can_remove_24[OF assms] capture_legal_def)

lemma any_removable_exists:
  assumes "length (board g) = 24" "0 \<le> q" "q < 24" "can_remove g q = Inr True"
  shows "any_removable g (positions_of (board g) (other (current_player g))) = Inr True"
proof -
  from assms have cl: "capture_legal (board g) (current_player g) q"
    by (simp add: can_remove_24 capture_legal_def)
  then have "q \<in> set (positions_of (board g) (other (current_player g)))"
    using assms by (intro positions_of_member) (simp_all add: capture_legal_def)
  with cl have "\<exists>q \<in> set (positions_of (board g) (other (current_player g))).
                 capture_legal (board g) (current_player g) q" by blast
  moreover have "\<forall>q \<in> set (positions_of (board g) (other (current_player g))). 0 \<le> q \<and> q < 24"
    using positions_of_in_range[of "board g" "other (current_player g)"] assms(1) by simp
  ultimately show ?thesis using any_removable_in_range[OF assms(1)] by simp
qed

subsection \<open>The two halves of make_move\<close>

lemma second_half_board:
  assumes "length (board g) = 24" "0 \<le> r" "r < 24"
  shows "board (snd (second_half g f t (Some r) True)) =
         (if capture_legal (board g) (current_player g) r then (board g)[nat r := None] else board g)"
proof -
  have len: "\<And>b. length (board (g\<lparr>board := b\<rparr>)) = length b" by simp
  have ar: "any_removable (g\<lparr>board := (board g)[nat r := None]\<rparr>)
              (positions_of (board (g\<lparr>board := (board g)[nat r := None]\<rparr>))
                 (other (current_player (g\<lparr>board := (board g)[nat r := None]\<rparr>)))) =
            Inr (\<exists>q \<in> set (positions_of ((board g)[nat r := None]) (other (current_player g))).
                   capture_legal ((board g)[nat r := None]) (current_player g) q)"
    using positions_of_in_range[of "(board g)[nat r := None]" "other (current_player g)"] assms(1)
    by (subst any_removable_in_range) auto
  have ar2: "any_removable g (positions_of (board g) (other (current_player g))) =
            Inr (\<exists>q \<in> set (positions_of (board g) (other (current_player g))).
                   capture_legal (board g) (current_player g) q)"
    using positions_of_in_range[of "board g" "other (current_player g)"] assms(1)
    by (subst any_removable_in_range) auto
  show ?thesis
    using assms ar ar2
    by (simp add: second_half_def can_remove_24 capture_legal_def py_set_in_range Let_def)
qed

lemma second_half_not_rejected: "fst (second_half g f t r m) \<noteq> Rejected"
  by (simp add: second_half_def Let_def split: sum.splits option.splits prod.splits if_splits)

lemma second_half_phase: "phase (snd (second_half g f t r m)) = phase g"
  by (auto simp: second_half_def Let_def split: sum.splits option.splits prod.splits if_splits)

lemma removal_keeps_own:
  assumes "can_remove g r = Inr True" "py_set (board g) r None = Inr b1"
    "board g ! k = Some (current_player g)"
  shows "b1 ! k = Some (current_player g)"
proof -
  from can_remove_True_cell[OF assms(1)] obtain j where
    j: "py_index (board g) r = Some j" "board g ! j = Some (other (current_player g))" by blast
  from j(2) assms(3) have "j \<noteq> k" by auto
  moreover from assms(2) j(1) have "b1 = (board g)[j := None]" by (simp add: py_set_def)
  ultimately show ?thesis using assms(3) by simp
qed

lemma second_half_keeps_own:
  assumes "board g ! k = Some (current_player g)"
  shows "board (snd (second_half g f t r m)) ! k = Some (current_player g)"
  using assms removal_keeps_own[of g _ _ k]
  by (auto simp: second_half_def Let_def split: sum.splits option.splits prod.splits if_splits)

lemma second_half_from_ignored:
  "fst (second_half g f t r m) = fst (second_half g f' t r m) \<and>
   (snd (second_half g f t r m))\<lparr>moves := ms\<rparr> = (snd (second_half g f' t r m))\<lparr>moves := ms\<rparr>"
  by (auto simp: second_half_def Let_def split: sum.splits option.splits prod.splits if_splits)

lemma second_half_accepted:
  assumes "length (board g) = 24" "\<forall>x. r = Some x \<longrightarrow> - 24 \<le> x \<and> x < 24"
  shows "\<exists>res. fst (second_half g f t r m) = Accepted res"
proof -
  have ar: "\<exists>a. any_removable (g\<lparr>board := b\<rparr>)
              (positions_of b (other (current_player g))) = Inr a" if "length b = 24" for b
    using positions_of_in_range[of b "other (current_player g)"] that
    by (subst any_removable_in_range) auto
  have ar0: "\<exists>a. any_removable g (positions_of (board g) (other (current_player g))) = Inr a"
    using ar[of "board g"] assms(1) by simp
  show ?thesis
  proof (cases "m \<and> r \<noteq> None")
    case False
    then show ?thesis using ar0
      by (auto simp: second_half_def Let_def split: sum.splits option.splits prod.splits if_splits)
  next
    case True
    then obtain x where x: "r = Some x" by auto
    with assms have "\<exists>k. py_index (board g) x = Some k"
      by (auto simp: py_index_def)
    then obtain k where k: "py_index (board g) x = Some k" by blast
    from can_remove_total[OF assms(1) k] obtain ok where ok: "can_remove g x = Inr ok" by blast
    show ?thesis
    proof (cases ok)
      case False
      then show ?thesis using ar0 ok x True
        by (auto simp: second_half_def Let_def split: sum.splits option.splits prod.splits if_splits)
    next
      case True
      have "\<exists>a. any_removable (g\<lparr>board := (board g)[k := None]\<rparr>)
              (positions_of ((board g)[k := None]) (other (current_player g))) = Inr a"
        using ar[of "(board g)[k := None]"] assms(1) by simp
      then show ?thesis using ok x True \<open>m \<and> r \<noteq> None\<close> k
        by (auto simp: second_half_def Let_def py_set_index
            split: sum.splits option.splits prod.splits if_splits)
    qed
  qed
qed

lemma place_piece_empty:
  assumes "length (board g) = 24" "0 \<le> t" "t < 24" "board g ! nat t = None"
  shows "\<exists>m g1. place_piece g t = (Formed m, g1) \<and>
           board g1 = (board g)[nat t := Some (current_player g)] \<and>
           current_player g1 = current_player g \<and>
           phase g1 = (if total_pieces_placed g + 1 \<ge> 18 then 2 else phase g)"
proof -
  let ?g1 = "g\<lparr>board := (board g)[nat t := Some (current_player g)]\<rparr>"
  let ?g2 = "(if current_player ?g1 = White
              then ?g1\<lparr>white_pieces := white_pieces ?g1 - 1\<rparr>
              else ?g1\<lparr>black_pieces := black_pieces ?g1 - 1\<rparr>)"
  let ?g3 = "?g2\<lparr>total_pieces_placed := total_pieces_placed ?g2 + 1\<rparr>"
  have b3: "board ?g3 = (board g)[nat t := Some (current_player g)]" by simp
  have "length (board ?g3) = 24" using assms(1) by simp
  moreover have "py_index (board ?g3) t = Some (nat t)"
    using assms by (simp add: py_index_def)
  ultimately obtain m where m: "is_mill ?g3 t = Inr m" using is_mill_total by blast
  have "place_piece g t =
        (Formed m, if total_pieces_placed ?g3 \<ge> 18 then ?g3\<lparr>phase := 2\<rparr> else ?g3)"
    using assms m unfolding place_piece_def
    by (simp add: py_get_in_range py_set_in_range Let_def)
  then show ?thesis by (auto split: if_splits)
qed

lemma place_piece_occupied:
  assumes "0 \<le> t" "t < int (length (board g))" "board g ! nat t \<noteq> None"
  shows "place_piece g t = (Refused, g)"
  using assms by (auto simp: place_piece_def py_get_in_range)

lemma place_piece_formed:
  assumes "place_piece g t = (Formed m, g1)"
  shows "current_player g1 = current_player g \<and>
         py_get (board g1) t = Inr (Some (current_player g)) \<and>
         length (board g1) = length (board g)"
proof -
  from assms obtain k where k: "py_index (board g) t = Some k"
    by (cases "py_index (board g) t") (simp_all add: place_piece_def py_get_def)
  have kl: "k < length (board g)" using py_index_lt[OF k] .
  from assms k kl show ?thesis
    by (auto simp: place_piece_def py_get_def py_set_def Let_def
             split: option.splits sum.splits if_splits)
qed

lemma relocate_formed:
  assumes "relocate g f t = (Formed m, g1)"
  shows "current_player g1 = current_player g \<and>
         py_get (board g1) t = Inr (Some (current_player g)) \<and>
         length (board g1) = length (board g)"
proof -
  from assms obtain k where k: "py_index (board g) t = Some k"
    by (cases "py_index (board g) t")
       (auto simp: relocate_def py_get_def split: option.splits sum.splits if_splits)
  have kl: "k < length (board g)" using py_index_lt[OF k] .
  from assms k kl show ?thesis
    by (auto simp: relocate_def py_get_def py_set_def Let_def
             split: option.splits sum.splits if_splits)
qed

lemma first_half_formed:
  assumes "first_half g f t = (Formed m, g1)"
  shows "current_player g1 = current_player g \<and>
         py_get (board g1) t = Inr (Some (current_player g)) \<and>
         length (board g1) = length (board g)"
proof -
  consider "phase g = 1" | "phase g = 2" | "phase g = 3" | "phase g \<notin> {1, 2, 3}" by auto
  then show ?thesis
  proof cases
    case 1
    then show ?thesis using assms place_piece_formed by (simp add: first_half_def)
  next
    case 2
    then obtain g2 where "relocate g f t = (Formed m, g2)"
       and "g1 = (if count_pieces (board g2) White = 3 \<or> count_pieces (board g2) Black = 3
                  then g2\<lparr>phase := 3\<rparr> else g2)"
      using assms by (auto simp: first_half_def split: prod.splits stage.splits)
    then show ?thesis using relocate_formed[of g f t m g2] by (auto split: if_splits)
  next
    case 3
    then show ?thesis using assms relocate_formed by (simp add: first_half_def)
  next
    case 4
    then show ?thesis using assms by (simp add: first_half_def)
  qed
qed

lemma all_in_mills_first_half:
  "first_half all_in_mills_before None 5 = (Formed True, all_in_mills_after)"
  by code_simp

subsection \<open>Capture legality\<close>

lemma no_target_when_all_in_mills:
  assumes "\<forall>q \<in> set (positions_of b (other mover)). in_mill b (other mover) q"
      and "0 \<le> q" "q < int (length b)"
  shows "\<not> capture_legal b mover q"
  using assms positions_of_member[of q b "other mover"] by (auto simp: capture_legal_def)

lemma second_half_all_in_mills:
  assumes "length (board g) = 24"
      and "\<forall>q \<in> set (positions_of (board g) (other (current_player g))).
             in_mill (board g) (other (current_player g)) q"
      and "\<forall>x. r = Some x \<longrightarrow> 0 \<le> x \<and> x < 24"
  shows "second_half g f t r True =
           (Accepted \<lparr>success = True, mill_formed = True, waiting_for_removal = False\<rparr>,
            g\<lparr>moves := moves g @
                  [\<lparr>mv_from = f, mv_to = Some t, mv_remove = None,
                    mv_player = current_player g, mv_mill = True, mv_timers = None\<rparr>],
              current_player := other (current_player g)\<rparr>)"
proof -
  have nl: "\<And>q. 0 \<le> q \<Longrightarrow> q < 24 \<Longrightarrow> \<not> capture_legal (board g) (current_player g) q"
    using no_target_when_all_in_mills[OF assms(2)] assms(1) by simp
  have ar: "any_removable g (positions_of (board g) (other (current_player g))) = Inr False"
  proof -
    have rng: "\<forall>q \<in> set (positions_of (board g) (other (current_player g))). 0 \<le> q \<and> q < 24"
      using positions_of_in_range[of "board g" "other (current_player g)"] assms(1) by simp
    then have "\<not> (\<exists>q \<in> set (positions_of (board g) (other (current_player g))).
                  capture_legal (board g) (current_player g) q)"
      using nl by blast
    then show ?thesis using any_removable_in_range[OF assms(1) rng] by simp
  qed
  show ?thesis
  proof (cases r)
    case None
    then show ?thesis using ar by (simp add: second_half_def Let_def)
  next
    case (Some x)
    then have x: "0 \<le> x" "x < 24" using assms(3) by simp_all
    have "can_remove g x = Inr False"
      using can_remove_24[OF assms(1) x] nl[OF x] by (simp add: capture_legal_def)
    then show ?thesis using Some ar by (simp add: second_half_def Let_def)
  qed
qed

text \<open>
  Claim C1, as amended. On a 24-cell board and for a position \<open>0 \<le> p < 24\<close>,
  \<open>can_remove\<close> answers exactly "the cell holds a piece of the side not on turn and that
  piece is not on a full line of its colour". After a move that formed a mill,
  \<open>make_move\<close> clears the cell named by such a \<open>remove_pos\<close> exactly when that test
  succeeds and otherwise leaves the board as the move left it. No exception is made when
  every opposing piece stands in a mill: then the position is refused, and \<open>make_move\<close>
  removes nothing, logs the move without a capture, reports
  \<open>waiting_for_removal\<close> false and passes the turn to the other side.
\<close>

theorem capture_legality:
  assumes "length (board g) = 24" "0 \<le> p" "p < 24"
  shows "can_remove g p = Inr (capture_legal (board g) (current_player g) p) \<and>
         (\<forall>g0 f t. first_half g0 f t = (Formed True, g) \<longrightarrow>
            board (snd (make_move g0 f t (Some p))) =
              (if capture_legal (board g) (current_player g) p
               then (board g)[nat p := None] else board g)) \<and>
         ((\<forall>q \<in> set (positions_of (board g) (other (current_player g))).
              in_mill (board g) (other (current_player g)) q) \<longrightarrow>
            \<not> capture_legal (board g) (current_player g) p \<and>
            (\<forall>g0 f t. first_half g0 f t = (Formed True, g) \<longrightarrow>
               make_move g0 f t (Some p) =
                 (Accepted \<lparr>success = True, mill_formed = True, waiting_for_removal = False\<rparr>,
                  g\<lparr>moves := moves g @
                        [\<lparr>mv_from = f, mv_to = Some t, mv_remove = None,
                          mv_player = current_player g, mv_mill = True, mv_timers = None\<rparr>],
                    current_player := other (current_player g)\<rparr>)))"
proof (intro conjI impI allI)
  show "can_remove g p = Inr (capture_legal (board g) (current_player g) p)"
    using can_remove_24[OF assms] by (simp add: capture_legal_def)
next
  fix g0 f t
  assume "first_half g0 f t = (Formed True, g)"
  then show "board (snd (make_move g0 f t (Some p))) =
              (if capture_legal (board g) (current_player g) p
               then (board g)[nat p := None] else board g)"
    using second_half_board[OF assms] by (simp add: make_move_def)
next
  assume a: "\<forall>q \<in> set (positions_of (board g) (other (current_player g))).
              in_mill (board g) (other (current_player g)) q"
  show "\<not> capture_legal (board g) (current_player g) p"
    using no_target_when_all_in_mills[OF a] assms by simp
  fix g0 f t
  assume "first_half g0 f t = (Formed True, g)"
  then show "make_move g0 f t (Some p) =
                 (Accepted \<lparr>success = True, mill_formed = True, waiting_for_removal = False\<rparr>,
                  g\<lparr>moves := moves g @
                        [\<lparr>mv_from = f, mv_to = Some t, mv_remove = None,
                          mv_player = current_player g, mv_mill = True, mv_timers = None\<rparr>],
                    current_player := other (current_player g)\<rparr>)"
    using second_half_all_in_mills[OF assms(1) a, of "Some p" f t] assms(2,3)
    by (simp add: make_move_def)
qed

text \<open>
  The theorem at a reachable position: white has just closed the line 3-4-5, black's only
  pieces are the mill 0-1-2, and white names position 0; nothing is removed and black is
  on turn.
\<close>

theorem capture_legality_witness:
  "can_remove all_in_mills_after 0 = Inr False \<and>
   board (snd (make_move all_in_mills_before None 5 (Some 0))) = board all_in_mills_after \<and>
   fst (make_move all_in_mills_before None 5 (Some 0))
     = Accepted \<lparr>success = True, mill_formed = True, waiting_for_removal = False\<rparr> \<and>
   current_player (snd (make_move all_in_mills_before None 5 (Some 0))) = Black"
proof -
  have l: "length (board all_in_mills_after) = 24" by code_simp
  have n: "\<not> capture_legal (board all_in_mills_after) (current_player all_in_mills_after) 0"
    by code_simp
  have m: "\<forall>q \<in> set (positions_of (board all_in_mills_after)
                         (other (current_player all_in_mills_after))).
             in_mill (board all_in_mills_after) (other (current_player all_in_mills_after)) q"
    by code_simp
  have c: "current_player all_in_mills_after = White" by code_simp
  note th = capture_legality[OF l, of 0]
  from th all_in_mills_first_half n m c show ?thesis by (simp add: other_def)
qed

text \<open>
  Claim C1 as the specification words it fails there: every black piece is in a mill, so
  the specification makes position 0 capturable, while \<open>can_remove\<close> refuses it and
  \<open>make_move\<close> leaves the piece on the board.
\<close>

theorem capture_exception_counterexample:
  "capture_legal_spec (board all_in_mills_after) (current_player all_in_mills_after) 0 \<and>
   can_remove all_in_mills_after 0 = Inr False \<and>
   board (snd (make_move all_in_mills_before None 5 (Some 0))) ! 0 = Some Black"
  by code_simp

subsection \<open>The placing phase\<close>

text \<open>
  Claim C8. In phase 1, on a 24-cell board and for a destination \<open>0 \<le> to_pos < 24\<close>:
  an occupied destination makes \<open>make_move\<close> return False with the engine unchanged; an
  empty one is never refused, the cell then holds the mover's colour, the call returns its
  result dictionary whenever \<open>remove_pos\<close> is absent or a valid index, and the phase is 2
  exactly when this was at least the 18th placement. The outcome and the whole engine
  apart from the move log do not depend on \<open>from_pos\<close>.
\<close>

theorem placing_phase:
  assumes "phase g = 1" "length (board g) = 24" "0 \<le> to_pos" "to_pos < 24"
  shows "(board g ! nat to_pos \<noteq> None \<longrightarrow>
            make_move g from_pos to_pos remove_pos = (Rejected, g)) \<and>
         (board g ! nat to_pos = None \<longrightarrow>
            fst (make_move g from_pos to_pos remove_pos) \<noteq> Rejected \<and>
            ((\<forall>r. remove_pos = Some r \<longrightarrow> - 24 \<le> r \<and> r < 24) \<longrightarrow>
               (\<exists>res. fst (make_move g from_pos to_pos remove_pos) = Accepted res)) \<and>
            board (snd (make_move g from_pos to_pos remove_pos)) ! nat to_pos
              = Some (current_player g) \<and>
            phase (snd (make_move g from_pos to_pos remove_pos))
              = (if total_pieces_placed g + 1 \<ge> 18 then 2 else 1)) \<and>
         (\<forall>other_from.
            fst (make_move g other_from to_pos remove_pos)
              = fst (make_move g from_pos to_pos remove_pos) \<and>
            (snd (make_move g other_from to_pos remove_pos))\<lparr>moves := []\<rparr>
              = (snd (make_move g from_pos to_pos remove_pos))\<lparr>moves := []\<rparr>)"
proof (intro conjI impI allI)
  assume "board g ! nat to_pos \<noteq> None"
  then show "make_move g from_pos to_pos remove_pos = (Rejected, g)"
    using assms place_piece_occupied[of to_pos g] by (simp add: make_move_def first_half_def)
next
  fix other_from
  show "fst (make_move g other_from to_pos remove_pos)
          = fst (make_move g from_pos to_pos remove_pos)"
    using assms(1) second_half_from_ignored
    by (auto simp: make_move_def first_half_def split: prod.splits stage.splits)
  show "(snd (make_move g other_from to_pos remove_pos))\<lparr>moves := []\<rparr>
          = (snd (make_move g from_pos to_pos remove_pos))\<lparr>moves := []\<rparr>"
    using assms(1) second_half_from_ignored
    by (auto simp: make_move_def first_half_def split: prod.splits stage.splits)
next
  assume e: "board g ! nat to_pos = None"
  from place_piece_empty[OF assms(2-4) e] obtain m g1 where
    p: "place_piece g to_pos = (Formed m, g1)"
       "board g1 = (board g)[nat to_pos := Some (current_player g)]"
       "current_player g1 = current_player g"
       "phase g1 = (if total_pieces_placed g + 1 \<ge> 18 then 2 else phase g)" by blast
  have mm: "make_move g from_pos to_pos remove_pos = second_half g1 from_pos to_pos remove_pos m"
    using assms(1) p(1) by (simp add: make_move_def first_half_def)
  have l1: "length (board g1) = 24" using p(2) assms(2) by simp
  have own: "board g1 ! nat to_pos = Some (current_player g1)"
    using p(2,3) assms by simp
  show "fst (make_move g from_pos to_pos remove_pos) \<noteq> Rejected"
    unfolding mm by (rule second_half_not_rejected)
  show "board (snd (make_move g from_pos to_pos remove_pos)) ! nat to_pos = Some (current_player g)"
    unfolding mm using second_half_keeps_own[OF own] p(3) by simp
  show "phase (snd (make_move g from_pos to_pos remove_pos))
          = (if total_pieces_placed g + 1 \<ge> 18 then 2 else 1)"
    unfolding mm second_half_phase using p(4) assms(1) by simp
  assume "\<forall>r. remove_pos = Some r \<longrightarrow> - 24 \<le> r \<and> r < 24"
  then show "\<exists>res. fst (make_move g from_pos to_pos remove_pos) = Accepted res"
    unfolding mm using second_half_accepted[OF l1] by blast
qed

text \<open>
  The theorem after seventeen placements without a mill: position 2 is taken, and black's
  piece on position 18 is the eighteenth.
\<close>

theorem placing_phase_witness:
  "make_move seventeen_placed None 2 None = (Rejected, seventeen_placed) \<and>
   fst (make_move seventeen_placed None 18 None) \<noteq> Rejected \<and>
   board (snd (make_move seventeen_placed None 18 None)) ! 18 = Some Black \<and>
   phase (snd (make_move seventeen_placed None 18 None)) = 2"
proof -
  have p: "phase seventeen_placed = 1" by code_simp
  have l: "length (board seventeen_placed) = 24" by code_simp
  have o: "board seventeen_placed ! 2 \<noteq> None" by code_simp
  have e: "board seventeen_placed ! 18 = None" by code_simp
  have c: "current_player seventeen_placed = Black" by code_simp
  have t: "total_pieces_placed seventeen_placed = 17" by code_simp
  from placing_phase[OF p l, of 2 None None] placing_phase[OF p l, of 18 None None] o e c t
  show ?thesis by simp
qed

subsection \<open>A mill with a refused capture\<close>

text \<open>
  Claim C10. If the move formed a mill, the supplied \<open>remove_pos\<close> is not capturable and
  some position of the board is, then \<open>make_move\<close> returns success with
  \<open>mill_formed\<close> true and \<open>waiting_for_removal\<close> false; the engine is the one the move
  produced, with the move appended to the log without a capture, and the mover is still on
  turn.
\<close>

theorem unclaimed_capture:
  assumes "first_half g from_pos to_pos = (Formed True, g1)"
      and "length (board g1) = 24"
      and "can_remove g1 r = Inr False"
      and "0 \<le> q" "q < 24" "can_remove g1 q = Inr True"
  shows "make_move g from_pos to_pos (Some r) =
           (Accepted \<lparr>success = True, mill_formed = True, waiting_for_removal = False\<rparr>,
            g1\<lparr>moves := moves g1 @
                  [\<lparr>mv_from = from_pos, mv_to = Some to_pos, mv_remove = None,
                    mv_player = current_player g, mv_mill = True, mv_timers = None\<rparr>]\<rparr>) \<and>
         current_player g1 = current_player g \<and>
         py_get (board g1) to_pos = Inr (Some (current_player g))"
proof -
  have ar: "any_removable g1 (positions_of (board g1) (other (current_player g1))) = Inr True"
    using any_removable_exists[OF assms(2,4,5,6)] .
  have fh: "current_player g1 = current_player g"
           "py_get (board g1) to_pos = Inr (Some (current_player g))"
    using first_half_formed[OF assms(1)] by simp_all
  have "second_half g1 from_pos to_pos (Some r) True =
          (Accepted \<lparr>success = True, mill_formed = True, waiting_for_removal = False\<rparr>,
            g1\<lparr>moves := moves g1 @
                  [\<lparr>mv_from = from_pos, mv_to = Some to_pos, mv_remove = None,
                    mv_player = current_player g1, mv_mill = True, mv_timers = None\<rparr>]\<rparr>)"
    using assms(3) ar by (simp add: second_half_def Let_def)
  then show ?thesis using assms(1) fh by (simp add: make_move_def)
qed

text \<open>
  The theorem at a reachable position: white closes 3-4-5 and names position 0, which is
  part of black's mill 0-1-2, while black's piece on 6 could have been taken.
\<close>

theorem unclaimed_capture_witness:
  "fst (make_move one_outside_mill None 5 (Some 0))
     = Accepted \<lparr>success = True, mill_formed = True, waiting_for_removal = False\<rparr> \<and>
   current_player (snd (make_move one_outside_mill None 5 (Some 0))) = White \<and>
   board (snd (make_move one_outside_mill None 5 (Some 0))) ! 0 = Some Black"
proof -
  have f: "first_half one_outside_mill None 5 = (Formed True, one_outside_mill_after)"
    by code_simp
  have l: "length (board one_outside_mill_after) = 24" by code_simp
  have r: "can_remove one_outside_mill_after 0 = Inr False" by code_simp
  have q: "can_remove one_outside_mill_after 6 = Inr True" by code_simp
  have c: "current_player one_outside_mill = White" by code_simp
  have b: "board one_outside_mill_after ! 0 = Some Black" by code_simp
  from unclaimed_capture[OF f l r _ _ q] c b show ?thesis by simp
qed

section \<open>Verification of the clock\<close>

text \<open>
  Claim C2, as amended. \<open>switch_player\<close> credits the increment to the side that just
  moved exactly when the clock is running, the increment is positive and \<open>move_count\<close> is
  not negative; \<open>move_count\<close> starts at 0, so a new clock with a positive increment credits it
  on its first switch. The other side's time is untouched, and a clock that is not running
  is left as it is.
\<close>

theorem switch_credit:
  "fst (switch_player tm new_player now)
     = (state tm = TIMER_RUNNING \<and> increment tm > 0 \<and> move_count tm \<ge> 0) \<and>
   (state tm = TIMER_RUNNING \<longrightarrow>
      time_of (snd (switch_player tm new_player now)) (active_player tm)
        = max 0 (time_of tm (active_player tm) - (now - last_update tm))
          + (if increment tm > 0 \<and> move_count tm \<ge> 0 then increment tm else 0) \<and>
      time_of (snd (switch_player tm new_player now)) (other (active_player tm))
        = time_of tm (other (active_player tm))) \<and>
   (state tm \<noteq> TIMER_RUNNING \<longrightarrow> snd (switch_player tm new_player now) = tm) \<and>
   fst (switch_player (init_timer w b inc t0) new_player now) = (inc > 0)"
  by (cases "active_player tm")
     (auto simp: switch_player_def time_of_def other_def init_timer_def Let_def)

text \<open>
  The first switch of a new 3+2 clock, four seconds after its creation.
\<close>

theorem switch_credit_witness:
  "fst (switch_player fresh_clock Black 4) \<and>
   time_of (snd (switch_player fresh_clock Black 4)) White = 178 \<and>
   time_of (snd (switch_player fresh_clock Black 4)) Black = 180"
proof -
  have r: "state fresh_clock = TIMER_RUNNING" "active_player fresh_clock = White"
    "increment fresh_clock = 2" "move_count fresh_clock = 0" "last_update fresh_clock = 0"
    "time_of fresh_clock White = 180" "time_of fresh_clock Black = 180"
    by (simp_all add: fresh_clock_def init_timer_def time_of_def)
  from switch_credit[of fresh_clock Black 4] r show ?thesis by (simp add: other_def)
qed

text \<open>
  Claim C2 as stated fails at that input: no switch has been processed, and the increment
  is credited.
\<close>

theorem first_switch_counterexample:
  "move_count fresh_clock = 0 \<and> increment fresh_clock = 2 \<and>
   fst (switch_player fresh_clock Black 4) = True \<and>
   white_time (snd (switch_player fresh_clock Black 4)) = 178"
  by (simp add: fresh_clock_def init_timer_def switch_player_def Let_def)

text \<open>
  Claim C7. Two reads at wall times \<open>t1 \<le> t2\<close> with nothing between them: the second
  reports no more time for the active side than the first, and the same time for the other
  side, whatever the clock's state.
\<close>

theorem read_twice:
  assumes "t1 \<le> t2"
  shows "remaining (fst (get_current_times (snd (get_current_times tm t1)) t2)) (active_player tm)
           \<le> remaining (fst (get_current_times tm t1)) (active_player tm) \<and>
         remaining (fst (get_current_times (snd (get_current_times tm t1)) t2))
             (other (active_player tm))
           = remaining (fst (get_current_times tm t1)) (other (active_player tm))"
  using assms
  by (cases "active_player tm")
     (auto simp: get_current_times_def remaining_def other_def Let_def)

theorem read_twice_witness:
  "remaining (fst (get_current_times (snd (get_current_times running_clock 10)) 12)) White
     \<le> remaining (fst (get_current_times running_clock 10)) White \<and>
   remaining (fst (get_current_times (snd (get_current_times running_clock 10)) 12)) Black
     = remaining (fst (get_current_times running_clock 10)) Black"
proof -
  have a: "active_player running_clock = White"
    by (simp add: running_clock_def fresh_clock_def init_timer_def switch_player_def Let_def)
  have h: "(10::real) \<le> 12" by simp
  from read_twice[OF h, of running_clock] a show ?thesis by (simp add: other_def)
qed

section \<open>Verification of the rating engine\<close>

lemma expected_equal: "expected_score r r = Inr (1 / 2)"
  by (simp add: expected_score_def)

lemma expected_defined:
  "opp - own < 123302 \<Longrightarrow>
   expected_score own opp = Inr (1 / (1 + 10 powr (of_int (opp - own) / 400)))"
  by (simp add: expected_score_def)

lemma py_round_int: "py_round (of_int n) = n"
  by (simp add: py_round_def)

lemma rounded_changes_100:
  assumes "rating wp = 100" "rating bp = 100"
  shows "rounded_changes wp bp WhiteWins = Inr (16, - 16)"
proof -
  have a: "py_round 16 = 16" using py_round_int[of 16] by simp
  have b: "py_round (- 16) = - 16" using py_round_int[of "- 16"] by simp
  show ?thesis using assms a b
    by (simp add: rounded_changes_def calculate_k_factor_def expected_equal Let_def)
qed

lemma rounded_changes_decisive:
  assumes "winner \<noteq> Draw" "rating bp - rating wp < 123302"
  shows "\<exists>wc bc. rounded_changes wp bp winner = Inr (wc, bc) \<and> wc \<noteq> 0 \<and> bc \<noteq> 0"
  using assms by (auto simp: rounded_changes_def expected_defined Let_def)

text \<open>
  From a difference of 123302 points in black's favour on, the float power overflows and
  \<open>update_ratings\<close> of a rated game raises before any rating is written.
\<close>

lemma ratings_overflow:
  assumes "game_type \<noteq> ''friendly''" "rating bp - rating wp \<ge> 123302"
  shows "update_ratings game_type wp bp winner = Inl OverflowError"
  using assms by (simp add: update_ratings_def rounded_changes_def expected_score_def Let_def)

lemma outlier_overflow:
  "update_ratings ''ranked'' newcomer outlier BlackWins = Inl OverflowError"
  by (simp add: ratings_overflow newcomer_def outlier_def)

text \<open>
  Claim C5. Two players rated 100, a rated game, white wins: the K-factor is 32, the
  expected score is one half, the update returns, white's new rating is
  \<open>\<lfloor>100 + 32 \<cdot> (1 - 1/2)\<rfloor> = 116\<close> and black's is \<open>max 50 (100 - 16) = 84\<close>.
\<close>

theorem elo_both_100:
  assumes "rating wp = 100" "rating bp = 100" "game_type \<noteq> ''friendly''"
  shows "calculate_k_factor (rating wp) (games_played wp) = 32 \<and>
         expected_score (rating wp) (rating bp) = Inr (1 / 2) \<and>
         (\<exists>u. update_ratings game_type wp bp WhiteWins = Inr u \<and>
            rating (white_after u) = \<lfloor>100 + 32 * (1 - 1 / 2 :: real)\<rfloor> \<and>
            rating (black_after u) = max 50 (100 - (rating (white_after u) - 100)) \<and>
            rating (white_after u) = 116 \<and>
            rating (black_after u) = 84)"
proof -
  have f: "\<lfloor>100 + 32 * (1 - 1 / 2 :: real)\<rfloor> = 116" by simp
  obtain u where u: "update_ratings game_type wp bp WhiteWins = Inr u"
    "rating (white_after u) = 116" "rating (black_after u) = 84"
    using assms rounded_changes_100[OF assms(1,2)]
    by (simp add: update_ratings_def count_result_def Let_def)
  show ?thesis using assms u f
    by (simp add: calculate_k_factor_def expected_equal)
qed

theorem elo_both_100_witness:
  "\<exists>u. update_ratings ''ranked'' newcomer newcomer WhiteWins = Inr u \<and>
       rating (white_after u) = 116 \<and> rating (black_after u) = 84"
proof -
  have r: "rating newcomer = 100" by (simp add: newcomer_def)
  have g: "''ranked'' \<noteq> ''friendly''" by simp
  from elo_both_100[OF r r g] show ?thesis by auto
qed

text \<open>
  Claim C6. In a rated decisive game with a rating gap of at least 400 won by the
  higher-rated side, and with black fewer than 123302 points above white so that the
  expected score is computed: the update returns, the winner's change is 0 although the
  change after rounding and the one-point minimum is not, and the loser's change is the one
  computed before the gap rule.
\<close>

theorem anti_farming:
  assumes "game_type \<noteq> ''friendly''"
      and "\<bar>rating wp - rating bp\<bar> \<ge> 400"
      and "rating bp - rating wp < 123302"
  shows "(rating wp > rating bp \<longrightarrow>
            (\<exists>u wc bc. update_ratings game_type wp bp WhiteWins = Inr u \<and>
               rounded_changes wp bp WhiteWins = Inr (wc, bc) \<and>
               white_rating_change u = 0 \<and> wc \<noteq> 0 \<and> black_rating_change u = bc)) \<and>
         (rating bp > rating wp \<longrightarrow>
            (\<exists>u wc bc. update_ratings game_type wp bp BlackWins = Inr u \<and>
               rounded_changes wp bp BlackWins = Inr (wc, bc) \<and>
               black_rating_change u = 0 \<and> bc \<noteq> 0 \<and> white_rating_change u = wc))"
proof (intro conjI impI)
  assume h: "rating wp > rating bp"
  from rounded_changes_decisive[of WhiteWins bp wp] assms(3) obtain wc bc where
    r: "rounded_changes wp bp WhiteWins = Inr (wc, bc)" "wc \<noteq> 0" "bc \<noteq> 0" by auto
  show "\<exists>u wc bc. update_ratings game_type wp bp WhiteWins = Inr u \<and>
               rounded_changes wp bp WhiteWins = Inr (wc, bc) \<and>
               white_rating_change u = 0 \<and> wc \<noteq> 0 \<and> black_rating_change u = bc"
    using assms h r by (simp add: update_ratings_def Let_def split: prod.splits)
next
  assume h: "rating bp > rating wp"
  from rounded_changes_decisive[of BlackWins bp wp] assms(3) obtain wc bc where
    r: "rounded_changes wp bp BlackWins = Inr (wc, bc)" "wc \<noteq> 0" "bc \<noteq> 0" by auto
  show "\<exists>u wc bc. update_ratings game_type wp bp BlackWins = Inr u \<and>
               rounded_changes wp bp BlackWins = Inr (wc, bc) \<and>
               black_rating_change u = 0 \<and> bc \<noteq> 0 \<and> white_rating_change u = wc"
    using assms h r by (simp add: update_ratings_def Let_def split: prod.splits)
qed

text \<open>
  The theorem for a player rated 1900 beating one rated 1400, with either colour.
\<close>

theorem anti_farming_witness:
  "(\<exists>u wc bc. update_ratings ''ranked'' master club_player WhiteWins = Inr u \<and>
      rounded_changes master club_player WhiteWins = Inr (wc, bc) \<and>
      white_rating_change u = 0 \<and> wc \<noteq> 0 \<and> black_rating_change u = bc) \<and>
   (\<exists>u wc bc. update_ratings ''ranked'' club_player master BlackWins = Inr u \<and>
      rounded_changes club_player master BlackWins = Inr (wc, bc) \<and>
      black_rating_change u = 0 \<and> bc \<noteq> 0 \<and> white_rating_change u = wc)"
proof -
  have g: "''ranked'' \<noteq> ''friendly''" by simp
  have a: "\<bar>rating master - rating club_player\<bar> \<ge> 400"
    by (simp add: master_def club_player_def)
  have b: "\<bar>rating club_player - rating master\<bar> \<ge> 400"
    by (simp add: master_def club_player_def)
  have a': "rating club_player - rating master < 123302"
    by (simp add: master_def club_player_def)
  have b': "rating master - rating club_player < 123302"
    by (simp add: master_def club_player_def)
  have c: "rating master > rating club_player" by (simp add: master_def club_player_def)
  from anti_farming[OF g a a'] anti_farming[OF g b b'] c show ?thesis by blast
qed
section \<open>Verification of the tournament scoring\<close>

lemma map_of_map_upd:
  "map_of (map (\<lambda>(n, p). if n = name then (n, f p) else (n, p)) xs) m =
     (if m = name then map_option f (map_of xs m) else map_of xs m)"
  by (induction xs) auto

lemma map_of_upd_player:
  "map_of (players (upd_player t name f)) m =
     (if m = name then map_option f (map_of (players t) m) else map_of (players t) m)"
  by (simp add: upd_player_def map_of_map_upd)

lemma streaks_upd_player [simp]: "streaks (upd_player t name f) = streaks t"
  by (simp add: upd_player_def)

lemma players_set_streak [simp]: "players (set_streak t name k) = players t"
  by (simp add: set_streak_def)

lemma streaks_set_streak [simp]: "streaks (set_streak t name k) = (streaks t)(name \<mapsto> k)"
  by (simp add: set_streak_def)

lemma joined_upd_player [simp]: "joined (upd_player t name f) m = joined t m"
  by (simp add: joined_def map_of_upd_player)

lemma joined_set_streak [simp]: "joined (set_streak t name k) m = joined t m"
  by (simp add: joined_def)

lemma score_push_series [simp]: "score (push_series e p) = score p"
  by (simp add: push_series_def)

lemma streak_of_steps [simp]:
  "streak_of (ensure_series t n) m = streak_of t m"
  "streak_of (count_game t n) m = streak_of t m"
  "streak_of (ensure_streak t n) m = streak_of t m"
  by (simp_all add: ensure_series_def count_game_def ensure_streak_def streak_of_def)

lemma joined_steps [simp]:
  "joined (ensure_series t n) m = joined t m"
  "joined (count_game t n) m = joined t m"
  "joined (ensure_streak t n) m = joined t m"
  by (simp_all add: ensure_series_def count_game_def ensure_streak_def)

lemma score_upd_player:
  assumes "\<And>p. score (f p) = score p"
  shows "map_option score (map_of (players (upd_player t n f)) m)
           = map_option score (map_of (players t) m)"
  using assms by (cases "map_of (players t) m") (auto simp: map_of_upd_player)

lemma score_ensure_series [simp]:
  "map_option score (map_of (players (ensure_series t n)) m) = map_option score (map_of (players t) m)"
  unfolding ensure_series_def by (simp add: score_upd_player)

lemma score_count_game [simp]:
  "map_option score (map_of (players (count_game t n)) m) = map_option score (map_of (players t) m)"
  unfolding count_game_def by (simp add: score_upd_player)

lemma score_ensure_streak [simp]:
  "map_option score (map_of (players (ensure_streak t n)) m) = map_option score (map_of (players t) m)"
  by (simp add: ensure_streak_def)

lemma prepared_streak [simp]: "streak_of (prepared t w b) n = streak_of t n"
  by (simp add: prepared_def)

lemma prepared_joined [simp]: "joined (prepared t w b) n = joined t n"
  by (simp add: prepared_def)

lemma prepared_score [simp]:
  "map_option score (map_of (players (prepared t w b)) n) = map_option score (map_of (players t) n)"
  by (simp add: prepared_def)

lemma prepared_streak2:
  "streak_of (count_game (count_game (ensure_streak (ensure_streak t w) b) w) b) n = streak_of t n"
  by (auto simp: count_game_def ensure_streak_def streak_of_def split: option.splits)

lemma score_game_prepared:
  "score_game t gd rw rb winner =
     (let w = tg_white gd; b = tg_black gd; t3 = prepared t w b in
      if winner = WhiteWins then
        record_loss (record_win t3 w b rb (streak_of t w) (berserk_white gd) White)
          b w rw (berserk_black gd) Black
      else if winner = BlackWins then
        record_loss (record_win t3 b w rw (streak_of t b) (berserk_black gd) Black)
          w b rb (berserk_white gd) White
      else
        record_draw (record_draw t3 w b rb (streak_of t w) (berserk_white gd) White)
          b w rw (streak_of t b) (berserk_black gd) Black)"
  by (simp add: score_game_def Let_def prepared_streak2 prepared_def)

lemma record_win_effect:
  assumes "joined t n"
  shows "map_option score (map_of (players (record_win t n opp r old bz c)) m) =
           (if m = n then map_option (\<lambda>s. s + win_points bz (old + 1 \<ge> 3))
                            (map_option score (map_of (players t) m))
            else map_option score (map_of (players t) m))"
    and "streaks (record_win t n opp r old bz c) = (streaks t)(n \<mapsto> old + 1)"
    and "joined (record_win t n opp r old bz c) m = joined t m"
  using assms
  by (auto simp: record_win_def Let_def map_of_upd_player streak_of_def option.map_comp comp_def
      intro!: option.map_cong)

lemma record_loss_effect:
  assumes "joined t n"
  shows "map_option score (map_of (players (record_loss t n opp r bz c)) m) =
           map_option score (map_of (players t) m)"
    and "streaks (record_loss t n opp r bz c) = (streaks t)(n \<mapsto> 0)"
  using assms
  by (auto simp: record_loss_def map_of_upd_player option.map_comp comp_def
      intro!: option.map_cong)

lemma record_draw_effect:
  assumes "joined t n"
  shows "map_option score (map_of (players (record_draw t n opp r old bz c)) m) =
           (if m = n then map_option (\<lambda>s. s + (if old \<ge> 3 then 2 else 1))
                            (map_option score (map_of (players t) m))
            else map_option score (map_of (players t) m))"
    and "streaks (record_draw t n opp r old bz c) = (streaks t)(n \<mapsto> 0)"
    and "joined (record_draw t n opp r old bz c) m = joined t m"
  using assms
  by (auto simp: record_draw_def Let_def map_of_upd_player option.map_comp comp_def
      intro!: option.map_cong)

lemma update_scores_active:
  assumes "tournament_id gd = Some tid" "tid \<noteq> []" "ts tid = Some t"
      "\<not> tournament_points_disabled gd"
  shows "update_tournament_scores ts gd rw rb winner = ts(tid \<mapsto> score_game t gd rw rb winner)"
  using assms by (simp add: update_tournament_scores_def)

lemma score_game_white_wins:
  assumes "joined t (tg_white gd)" "joined t (tg_black gd)" "tg_white gd \<noteq> tg_black gd"
  shows "map_option score (map_of (players (score_game t gd rw rb WhiteWins)) (tg_white gd))
           = map_option (\<lambda>s. s + win_points (berserk_white gd) (streak_of t (tg_white gd) + 1 \<ge> 3))
               (map_option score (map_of (players t) (tg_white gd)))"
    and "map_option score (map_of (players (score_game t gd rw rb WhiteWins)) (tg_black gd))
           = map_option score (map_of (players t) (tg_black gd))"
    and "streaks (score_game t gd rw rb WhiteWins) (tg_white gd) = Some (streak_of t (tg_white gd) + 1)"
    and "streaks (score_game t gd rw rb WhiteWins) (tg_black gd) = Some 0"
  using assms
  by (simp_all add: score_game_prepared Let_def record_win_effect record_loss_effect)

lemma score_game_black_wins:
  assumes "joined t (tg_white gd)" "joined t (tg_black gd)" "tg_white gd \<noteq> tg_black gd"
  shows "map_option score (map_of (players (score_game t gd rw rb BlackWins)) (tg_black gd))
           = map_option (\<lambda>s. s + win_points (berserk_black gd) (streak_of t (tg_black gd) + 1 \<ge> 3))
               (map_option score (map_of (players t) (tg_black gd)))"
    and "map_option score (map_of (players (score_game t gd rw rb BlackWins)) (tg_white gd))
           = map_option score (map_of (players t) (tg_white gd))"
    and "streaks (score_game t gd rw rb BlackWins) (tg_black gd) = Some (streak_of t (tg_black gd) + 1)"
    and "streaks (score_game t gd rw rb BlackWins) (tg_white gd) = Some 0"
  using assms
  by (simp_all add: score_game_prepared Let_def record_win_effect record_loss_effect)

lemma score_game_draw:
  assumes "joined t (tg_white gd)" "joined t (tg_black gd)" "tg_white gd \<noteq> tg_black gd"
  shows "map_option score (map_of (players (score_game t gd rw rb Draw)) (tg_white gd))
           = map_option (\<lambda>s. s + (if streak_of t (tg_white gd) \<ge> 3 then 2 else 1))
               (map_option score (map_of (players t) (tg_white gd)))"
    and "map_option score (map_of (players (score_game t gd rw rb Draw)) (tg_black gd))
           = map_option (\<lambda>s. s + (if streak_of t (tg_black gd) \<ge> 3 then 2 else 1))
               (map_option score (map_of (players t) (tg_black gd)))"
    and "streaks (score_game t gd rw rb Draw) (tg_white gd) = Some 0"
    and "streaks (score_game t gd rw rb Draw) (tg_black gd) = Some 0"
  using assms
  by (simp_all add: score_game_prepared Let_def record_draw_effect)

text \<open>
  Claim C4. For a game of an existing tournament with points enabled, between two
  different players who are both in the tournament: the winner gains 2 points, plus 1 with
  berserk, plus 2 once the consecutive-win count including this win is at least 3, and the
  count goes up by one; the loser's score is unchanged and the loser's count is 0; a draw
  gives each side 1 point, or 2 if that side's count was at least 3, and sets both counts
  to 0. A player on a count of 3 who wins with berserk gains 5, and the count becomes 4.
\<close>

theorem tournament_scoring:
  assumes "tournament_id gd = Some tid" "tid \<noteq> []" "ts tid = Some t"
      and "\<not> tournament_points_disabled gd"
      and "tg_white gd \<noteq> tg_black gd"
      and "map_of (players t) (tg_white gd) = Some pw"
      and "map_of (players t) (tg_black gd) = Some pb"
  shows "score_in (update_tournament_scores ts gd rw rb WhiteWins) tid (tg_white gd)
           = Some (score pw + 2 + (if berserk_white gd then 1 else 0)
                   + (if streak_of t (tg_white gd) + 1 \<ge> 3 then 2 else 0)) \<and>
         streak_in (update_tournament_scores ts gd rw rb WhiteWins) tid (tg_white gd)
           = Some (streak_of t (tg_white gd) + 1) \<and>
         score_in (update_tournament_scores ts gd rw rb WhiteWins) tid (tg_black gd)
           = Some (score pb) \<and>
         streak_in (update_tournament_scores ts gd rw rb WhiteWins) tid (tg_black gd) = Some 0 \<and>
         score_in (update_tournament_scores ts gd rw rb BlackWins) tid (tg_black gd)
           = Some (score pb + 2 + (if berserk_black gd then 1 else 0)
                   + (if streak_of t (tg_black gd) + 1 \<ge> 3 then 2 else 0)) \<and>
         streak_in (update_tournament_scores ts gd rw rb BlackWins) tid (tg_black gd)
           = Some (streak_of t (tg_black gd) + 1) \<and>
         score_in (update_tournament_scores ts gd rw rb BlackWins) tid (tg_white gd)
           = Some (score pw) \<and>
         streak_in (update_tournament_scores ts gd rw rb BlackWins) tid (tg_white gd) = Some 0 \<and>
         score_in (update_tournament_scores ts gd rw rb Draw) tid (tg_white gd)
           = Some (score pw + (if streak_of t (tg_white gd) \<ge> 3 then 2 else 1)) \<and>
         score_in (update_tournament_scores ts gd rw rb Draw) tid (tg_black gd)
           = Some (score pb + (if streak_of t (tg_black gd) \<ge> 3 then 2 else 1)) \<and>
         streak_in (update_tournament_scores ts gd rw rb Draw) tid (tg_white gd) = Some 0 \<and>
         streak_in (update_tournament_scores ts gd rw rb Draw) tid (tg_black gd) = Some 0 \<and>
         (streak_of t (tg_white gd) = 3 \<and> berserk_white gd \<longrightarrow>
            score_in (update_tournament_scores ts gd rw rb WhiteWins) tid (tg_white gd)
              = Some (score pw + 5) \<and>
            streak_in (update_tournament_scores ts gd rw rb WhiteWins) tid (tg_white gd) = Some 4)"
proof -
  have jw: "joined t (tg_white gd)" and jb: "joined t (tg_black gd)"
    using assms(6,7) by (simp_all add: joined_def)
  note u = update_scores_active[where ts = ts and tid = tid, OF assms(1-4)]
  note ww = score_game_white_wins[OF jw jb assms(5), of rw rb]
  note bw = score_game_black_wins[OF jw jb assms(5), of rw rb]
  note dr = score_game_draw[OF jw jb assms(5), of rw rb]
  have w1: "score_in (update_tournament_scores ts gd rw rb WhiteWins) tid (tg_white gd)
           = Some (score pw + win_points (berserk_white gd) (streak_of t (tg_white gd) + 1 \<ge> 3))"
    using ww(1) assms(6) by (simp add: u score_in_def)
  have w2: "streak_in (update_tournament_scores ts gd rw rb WhiteWins) tid (tg_white gd)
           = Some (streak_of t (tg_white gd) + 1)"
    using ww(3) by (simp add: u streak_in_def)
  have w3: "score_in (update_tournament_scores ts gd rw rb WhiteWins) tid (tg_black gd)
           = Some (score pb)"
    using ww(2) assms(7) by (simp add: u score_in_def)
  have w4: "streak_in (update_tournament_scores ts gd rw rb WhiteWins) tid (tg_black gd) = Some 0"
    using ww(4) by (simp add: u streak_in_def)
  have b1: "score_in (update_tournament_scores ts gd rw rb BlackWins) tid (tg_black gd)
           = Some (score pb + win_points (berserk_black gd) (streak_of t (tg_black gd) + 1 \<ge> 3))"
    using bw(1) assms(7) by (simp add: u score_in_def)
  have b2: "streak_in (update_tournament_scores ts gd rw rb BlackWins) tid (tg_black gd)
           = Some (streak_of t (tg_black gd) + 1)"
    using bw(3) by (simp add: u streak_in_def)
  have b3: "score_in (update_tournament_scores ts gd rw rb BlackWins) tid (tg_white gd)
           = Some (score pw)"
    using bw(2) assms(6) by (simp add: u score_in_def)
  have b4: "streak_in (update_tournament_scores ts gd rw rb BlackWins) tid (tg_white gd) = Some 0"
    using bw(4) by (simp add: u streak_in_def)
  have d1: "score_in (update_tournament_scores ts gd rw rb Draw) tid (tg_white gd)
           = Some (score pw + (if streak_of t (tg_white gd) \<ge> 3 then 2 else 1))"
    using dr(1) assms(6) by (simp add: u score_in_def)
  have d2: "score_in (update_tournament_scores ts gd rw rb Draw) tid (tg_black gd)
           = Some (score pb + (if streak_of t (tg_black gd) \<ge> 3 then 2 else 1))"
    using dr(2) assms(7) by (simp add: u score_in_def)
  have d3: "streak_in (update_tournament_scores ts gd rw rb Draw) tid (tg_white gd) = Some 0"
    using dr(3) by (simp add: u streak_in_def)
  have d4: "streak_in (update_tournament_scores ts gd rw rb Draw) tid (tg_black gd) = Some 0"
    using dr(4) by (simp add: u streak_in_def)
  have wp: "\<And>bz hs. win_points bz hs = 2 + (if bz then 1 else 0) + (if hs then 2 else 0)"
    by (simp add: win_points_def)
  show ?thesis
    unfolding w1 w2 w3 w4 b1 b2 b3 b4 d1 d2 d3 d4 wp by simp
qed

text \<open>
  The theorem for a white player on a streak of 3 with berserk active.
\<close>

theorem tournament_scoring_witness:
  "score_in (update_tournament_scores [''t1'' \<mapsto> arena] arena_game 1500 1480 WhiteWins)
     ''t1'' ''anna'' = Some 13 \<and>
   streak_in (update_tournament_scores [''t1'' \<mapsto> arena] arena_game 1500 1480 WhiteWins)
     ''t1'' ''anna'' = Some 4 \<and>
   streak_in (update_tournament_scores [''t1'' \<mapsto> arena] arena_game 1500 1480 WhiteWins)
     ''t1'' ''ben'' = Some 0 \<and>
   score_in (update_tournament_scores [''t1'' \<mapsto> arena] arena_game 1500 1480 Draw)
     ''t1'' ''anna'' = Some 10 \<and>
   score_in (update_tournament_scores [''t1'' \<mapsto> arena] arena_game 1500 1480 Draw)
     ''t1'' ''ben'' = Some 4"
proof -
  have a: "tournament_id arena_game = Some ''t1''" "''t1'' \<noteq> []"
    "[''t1'' \<mapsto> arena] ''t1'' = Some arena" "\<not> tournament_points_disabled arena_game"
    "tg_white arena_game \<noteq> tg_black arena_game"
    "map_of (players arena) (tg_white arena_game) = Some (entrant 8 1500)"
    "map_of (players arena) (tg_black arena_game) = Some (entrant 3 1480)"
    by (simp_all add: arena_game_def arena_def)
  have s: "streak_of arena (tg_white arena_game) = 3" "streak_of arena (tg_black arena_game) = 1"
    "berserk_white arena_game" "tg_white arena_game = ''anna''" "tg_black arena_game = ''ben''"
    "score (entrant 8 1500) = 8" "score (entrant 3 1480) = 3"
    by (simp_all add: arena_game_def arena_def streak_of_def entrant_def)
  from tournament_scoring[where ts = "[''t1'' \<mapsto> arena]" and tid = "''t1''" and gd = arena_game
         and rw = 1500 and rb = 1480, OF a] s
  show ?thesis by simp
qed
section \<open>Verification of the pairing engine\<close>

subsection \<open>The sort and the two loops\<close>

lemma names_of_Cons: "names_of ((a, b) # ps) = insert a (insert b (names_of ps))"
  by (auto simp: names_of_def)

lemma names_of_Nil [simp]: "names_of [] = {}"
  by (simp add: names_of_def)

lemma mset_insert_desc: "mset (insert_desc x ys) = add_mset x (mset ys)"
  by (induction ys) simp_all

lemma mset_sort_desc: "mset (sort_desc xs) = mset xs"
  by (induction xs) (simp_all add: sort_desc_def mset_insert_desc)

lemma set_insert_desc: "set (insert_desc x ys) = insert x (set ys)"
  by (induction ys) auto

lemma key_greater_trans:
  "\<not> key_greater y x \<Longrightarrow> \<not> key_greater z y \<Longrightarrow> \<not> key_greater z x"
  by (auto simp: key_greater_def)

lemma key_greater_asym: "key_greater y x \<Longrightarrow> \<not> key_greater x y"
  by (auto simp: key_greater_def)

lemma sorted_insert_desc:
  "sorted_wrt (\<lambda>a b. \<not> key_greater b a) ys \<Longrightarrow>
   sorted_wrt (\<lambda>a b. \<not> key_greater b a) (insert_desc x ys)"
proof (induction ys)
  case Nil
  then show ?case by simp
next
  case (Cons y ys)
  show ?case
  proof (cases "key_greater y x")
    case True
    then show ?thesis using Cons key_greater_asym[OF True]
      by (auto simp: set_insert_desc)
  next
    case False
    then show ?thesis using Cons key_greater_trans[OF False]
      by auto
  qed
qed

lemma sorted_sort_desc: "sorted_wrt (\<lambda>a b. \<not> key_greater b a) (sort_desc xs)"
  by (induction xs) (simp_all add: sort_desc_def sorted_insert_desc)

lemma best_opponent_Some:
  "best_opponent lo paired p cs = Some c \<Longrightarrow>
   \<exists>pre post. cs = pre @ c # post \<and> username c \<notin> paired \<and>
     \<not> blocked lo (username p) (username c) \<and>
     (\<forall>d \<in> set pre. username d \<in> paired \<or> blocked lo (username p) (username d))"
proof (induction cs)
  case Nil
  then show ?case by simp
next
  case (Cons x cs)
  show ?case
  proof (cases "username x \<in> paired \<or> blocked lo (username p) (username x)")
    case True
    then have "best_opponent lo paired p cs = Some c"
      using Cons.prems by (auto simp: blocked_def split: if_splits)
    from Cons.IH[OF this] obtain pre post where
      h: "cs = pre @ c # post" "username c \<notin> paired" "\<not> blocked lo (username p) (username c)"
         "\<forall>d \<in> set pre. username d \<in> paired \<or> blocked lo (username p) (username d)" by blast
    have "x # cs = (x # pre) @ c # post" using h(1) by simp
    moreover have "\<forall>d \<in> set (x # pre). username d \<in> paired \<or> blocked lo (username p) (username d)"
      using True h(4) by auto
    ultimately show ?thesis using h(2,3) by blast
  next
    case False
    then have "c = x" using Cons.prems by (auto simp: blocked_def split: if_splits)
    then have "x # cs = [] @ c # cs" by simp
    then show ?thesis using False \<open>c = x\<close> by fastforce
  qed
qed

lemma best_opponent_None:
  "best_opponent lo paired p cs = None \<Longrightarrow>
   \<forall>d \<in> set cs. username d \<in> paired \<or> blocked lo (username p) (username d)"
  by (induction cs) (auto simp: blocked_def split: if_splits)

lemma pair_loop_pairs:
  "pair_loop lo paired pool = r1 @ (a, b) # r2 \<Longrightarrow>
   \<not> blocked lo a b \<and> a \<notin> paired \<union> names_of r1 \<and> b \<notin> paired \<union> names_of r1 \<and>
   (\<exists>pre mid post. map username pool = pre @ a # mid @ b # post \<and>
      (\<forall>d \<in> set mid. d \<in> paired \<union> names_of r1 \<or> blocked lo a d))"
proof (induction pool arbitrary: paired r1)
  case Nil
  then show ?case by simp
next
  case (Cons p rest)
  let ?goal = "\<lambda>paired r1 pool. \<not> blocked lo a b \<and> a \<notin> paired \<union> names_of r1 \<and>
     b \<notin> paired \<union> names_of r1 \<and>
     (\<exists>pre mid post. map username pool = pre @ a # mid @ b # post \<and>
        (\<forall>d \<in> set mid. d \<in> paired \<union> names_of r1 \<or> blocked lo a d))"
  have skip: "?goal paired r1 (p # rest)" if "pair_loop lo paired rest = r1 @ (a, b) # r2"
  proof -
    from Cons.IH[OF that] obtain pre mid post where
      h: "\<not> blocked lo a b" "a \<notin> paired \<union> names_of r1" "b \<notin> paired \<union> names_of r1"
         "map username rest = pre @ a # mid @ b # post"
         "\<forall>d \<in> set mid. d \<in> paired \<union> names_of r1 \<or> blocked lo a d" by blast
    have "\<exists>pre mid post. map username (p # rest) = pre @ a # mid @ b # post \<and>
            (\<forall>d \<in> set mid. d \<in> paired \<union> names_of r1 \<or> blocked lo a d)"
      apply (rule exI[of _ "username p # pre"])
      apply (rule exI[of _ mid])
      apply (rule exI[of _ post])
      using h(4,5) by simp
    then show ?thesis using h(1,2,3) by simp
  qed
  show ?case
  proof (cases "username p \<in> paired")
    case True
    then show ?thesis using Cons.prems skip by simp
  next
    case False
    show ?thesis
    proof (cases "best_opponent lo paired p rest")
      case None
      then show ?thesis using Cons.prems False skip by simp
    next
      case (Some opp)
      let ?paired' = "insert (username opp) (insert (username p) paired)"
      have eq: "(username p, username opp) # pair_loop lo ?paired' rest = r1 @ (a, b) # r2"
        using Cons.prems False Some by simp
      show ?thesis
      proof (cases r1)
        case Nil
        then have ab: "a = username p" "b = username opp" using eq by simp_all
        from best_opponent_Some[OF Some] obtain pre post where
          h: "rest = pre @ opp # post" "username opp \<notin> paired"
             "\<not> blocked lo (username p) (username opp)"
             "\<forall>d \<in> set pre. username d \<in> paired \<or> blocked lo (username p) (username d)"
          by blast
        have m: "\<forall>d \<in> set (map username pre). d \<in> paired \<union> names_of r1 \<or> blocked lo a d"
          using h(4) ab Nil by auto
        have "\<exists>pre mid post. map username (p # rest) = pre @ a # mid @ b # post \<and>
                (\<forall>d \<in> set mid. d \<in> paired \<union> names_of r1 \<or> blocked lo a d)"
          apply (rule exI[of _ "[]"])
          apply (rule exI[of _ "map username pre"])
          apply (rule exI[of _ "map username post"])
          using h(1) ab m by simp
        then show ?thesis using h(2,3) ab False Nil by simp
      next
        case (Cons x r1')
        then have x: "x = (username p, username opp)"
          and rest: "pair_loop lo ?paired' rest = r1' @ (a, b) # r2"
          using eq by simp_all
        from Cons.IH[OF rest] obtain pre mid post where
          h: "\<not> blocked lo a b" "a \<notin> ?paired' \<union> names_of r1'" "b \<notin> ?paired' \<union> names_of r1'"
             "map username rest = pre @ a # mid @ b # post"
             "\<forall>d \<in> set mid. d \<in> ?paired' \<union> names_of r1' \<or> blocked lo a d" by blast
        have n: "?paired' \<union> names_of r1' = paired \<union> names_of r1"
          using Cons x by (auto simp: names_of_Cons)
        have "\<exists>pre mid post. map username (p # rest) = pre @ a # mid @ b # post \<and>
                (\<forall>d \<in> set mid. d \<in> paired \<union> names_of r1 \<or> blocked lo a d)"
          apply (rule exI[of _ "username p # pre"])
          apply (rule exI[of _ mid])
          apply (rule exI[of _ post])
          using h(4,5) unfolding n by simp
        then show ?thesis using h(1,2,3) unfolding n by simp
      qed
    qed
  qed
qed

lemma pair_loop_unpaired:
  "map username pool = pre @ a # post \<Longrightarrow>
   a \<notin> paired \<union> names_of (pair_loop lo paired pool) \<Longrightarrow>
   \<forall>d \<in> set post. d \<in> paired \<union> names_of (pair_loop lo paired pool) \<or> blocked lo a d"
proof (induction pool arbitrary: paired pre)
  case Nil
  then show ?case by simp
next
  case (Cons p rest)
  show ?case
  proof (cases pre)
    case Nil
    then have a: "a = username p" and post: "post = map username rest"
      using Cons.prems(1) by simp_all
    have np: "username p \<notin> paired" using Cons.prems(2) a by simp
    have "best_opponent lo paired p rest = None"
    proof (rule ccontr)
      assume "best_opponent lo paired p rest \<noteq> None"
      then obtain opp where "best_opponent lo paired p rest = Some opp" by auto
      then have "a \<in> names_of (pair_loop lo paired (p # rest))"
        using np a by (simp add: names_of_Cons)
      then show False using Cons.prems(2) by simp
    qed
    from best_opponent_None[OF this] show ?thesis using a post by auto
  next
    case (Cons q pre')
    then have r: "map username rest = pre' @ a # post" using Cons.prems(1) by simp
    show ?thesis
    proof (cases "username p \<in> paired \<or> best_opponent lo paired p rest = None")
      case True
      then have e: "pair_loop lo paired (p # rest) = pair_loop lo paired rest" by auto
      show ?thesis using Cons.IH[OF r, of paired] Cons.prems(2) unfolding e by simp
    next
      case False
      then obtain opp where o: "best_opponent lo paired p rest = Some opp"
        and np: "username p \<notin> paired" by auto
      let ?paired' = "insert (username opp) (insert (username p) paired)"
      have e: "pair_loop lo paired (p # rest)
                 = (username p, username opp) # pair_loop lo ?paired' rest"
        using o np by simp
      have n: "paired \<union> names_of (pair_loop lo paired (p # rest))
                 = ?paired' \<union> names_of (pair_loop lo ?paired' rest)"
        unfolding e by (auto simp: names_of_Cons)
      show ?thesis using Cons.IH[OF r, of ?paired'] Cons.prems(2) unfolding n by simp
    qed
  qed
qed

lemma pairing_never_blocked:
  assumes "(a, b) \<in> set (lichess_style_pairing w tid)"
  shows "\<not> blocked (get_last_opponent w tid) a b"
proof (cases "tournaments w tid")
  case None
  then show ?thesis using assms by (simp add: lichess_style_pairing_def)
next
  case (Some t)
  show ?thesis
  proof (cases "t_status t = ''active''")
    case False
    then show ?thesis using assms Some by (simp add: lichess_style_pairing_def)
  next
    case True
    then have e: "lichess_style_pairing w tid
          = pair_loop (get_last_opponent w tid) {} (sort_desc (available_players w t))"
      using Some by (simp add: lichess_style_pairing_def)
    from assms obtain r1 r2 where
      "pair_loop (get_last_opponent w tid) {} (sort_desc (available_players w t))
         = r1 @ (a, b) # r2"
      unfolding e by (meson split_list)
    from pair_loop_pairs[OF this] show ?thesis by simp
  qed
qed

lemma last_opponent_recorded:
  "get_last_opponent (set_last_opponent w tid a b) tid a = Some b \<or> a = b"
  "get_last_opponent (set_last_opponent w tid a b) tid b = Some a"
  by (auto simp: get_last_opponent_def set_last_opponent_def Let_def)

subsection \<open>The round is the top-down walk, and nothing else is\<close>

lemma walk_split_iff: "walk_round lo paired names R = walk_split lo paired names R"
proof -
  have o: "(\<forall>i \<in> set [0 ..< length R]. \<exists>k \<in> set [0 ..< length names].
              names ! k = fst (R ! i) \<and> fst ` set (take i R) \<subseteq> set (take k names))
           = (\<forall>r1 a b r2. R = r1 @ (a, b) # r2 \<longrightarrow>
                (\<exists>pre post. names = pre @ a # post \<and> fst ` set r1 \<subseteq> set pre))"
  proof
    assume h: "\<forall>i \<in> set [0 ..< length R]. \<exists>k \<in> set [0 ..< length names].
              names ! k = fst (R ! i) \<and> fst ` set (take i R) \<subseteq> set (take k names)"
    show "\<forall>r1 a b r2. R = r1 @ (a, b) # r2 \<longrightarrow>
                (\<exists>pre post. names = pre @ a # post \<and> fst ` set r1 \<subseteq> set pre)"
    proof (intro allI impI)
      fix r1 a b r2
      assume R: "R = r1 @ (a, b) # r2"
      then have "length r1 \<in> set [0 ..< length R]" by simp
      from h[rule_format, OF this] obtain k where
        k: "k < length names" "names ! k = fst (R ! length r1)"
           "fst ` set (take (length r1) R) \<subseteq> set (take k names)" by auto
      have "names = take k names @ a # drop (Suc k) names"
        using id_take_nth_drop[OF k(1)] k(2) R by simp
      moreover have "fst ` set r1 \<subseteq> set (take k names)" using k(3) R by simp
      ultimately show "\<exists>pre post. names = pre @ a # post \<and> fst ` set r1 \<subseteq> set pre" by blast
    qed
  next
    assume h: "\<forall>r1 a b r2. R = r1 @ (a, b) # r2 \<longrightarrow>
                (\<exists>pre post. names = pre @ a # post \<and> fst ` set r1 \<subseteq> set pre)"
    show "\<forall>i \<in> set [0 ..< length R]. \<exists>k \<in> set [0 ..< length names].
              names ! k = fst (R ! i) \<and> fst ` set (take i R) \<subseteq> set (take k names)"
    proof
      fix i assume "i \<in> set [0 ..< length R]"
      then have i: "i < length R" by simp
      then have "R = take i R @ (fst (R ! i), snd (R ! i)) # drop (Suc i) R"
        using id_take_nth_drop[OF i] by simp
      from h[rule_format, OF this] obtain pre post where
        p: "names = pre @ fst (R ! i) # post" "fst ` set (take i R) \<subseteq> set pre" by blast
      have "length pre \<in> set [0 ..< length names]" using p(1) by simp
      moreover have "names ! length pre = fst (R ! i)" using p(1) by simp
      moreover have "take (length pre) names = pre" using p(1) by simp
      ultimately show "\<exists>k \<in> set [0 ..< length names].
              names ! k = fst (R ! i) \<and> fst ` set (take i R) \<subseteq> set (take k names)"
        using p(2) by metis
    qed
  qed
  let ?F = "\<lambda>pre a post. partners R a =
            (if a \<in> settled paired R pre then {}
             else (case first_choice lo (settled paired R pre) a post of
                     None \<Rightarrow> {}
                   | Some c \<Rightarrow> {c}))"
  have s: "(\<forall>k \<in> set [0 ..< length names]. ?F (take k names) (names ! k) (drop (Suc k) names))
           = (\<forall>pre a post. names = pre @ a # post \<longrightarrow> ?F pre a post)"
  proof
    assume h: "\<forall>k \<in> set [0 ..< length names]. ?F (take k names) (names ! k) (drop (Suc k) names)"
    show "\<forall>pre a post. names = pre @ a # post \<longrightarrow> ?F pre a post"
    proof (intro allI impI)
      fix pre a post
      assume n: "names = pre @ a # post"
      then have "length pre \<in> set [0 ..< length names]" by simp
      from h[rule_format, OF this] show "?F pre a post" using n by simp
    qed
  next
    assume h: "\<forall>pre a post. names = pre @ a # post \<longrightarrow> ?F pre a post"
    show "\<forall>k \<in> set [0 ..< length names]. ?F (take k names) (names ! k) (drop (Suc k) names)"
    proof
      fix k assume "k \<in> set [0 ..< length names]"
      then have "names = take k names @ names ! k # drop (Suc k) names"
        using id_take_nth_drop[of k names] by simp
      from h[rule_format, OF this] show "?F (take k names) (names ! k) (drop (Suc k) names)" .
    qed
  qed
  show ?thesis unfolding walk_round_def walk_split_def o s ..
qed

lemma partners_Nil [simp]: "partners [] a = {}"
  by (simp add: partners_def)

lemma partners_Cons:
  "partners ((x, y) # R) a = (if x = a then insert y (partners R a) else partners R a)"
  by (simp add: partners_def)

lemma partners_append: "partners (A @ B) a = partners A a \<union> partners B a"
  by (auto simp: partners_def)

lemma partners_empty_iff: "partners R a = {} \<longleftrightarrow> a \<notin> fst ` set R"
  by (force simp: partners_def)

lemma partners_member: "y \<in> partners R a \<longleftrightarrow> (a, y) \<in> set R"
  by (force simp: partners_def)

lemma names_of_append: "names_of (A @ B) = names_of A \<union> names_of B"
  by (auto simp: names_of_def)

lemma settled_Nil [simp]: "settled paired R [] = paired"
  by (simp add: settled_def)

lemma settled_skip:
  assumes "a \<notin> fst ` set R"
  shows "settled paired R (a # pre) = settled paired R pre"
proof -
  have "filter (\<lambda>(x, y). x \<in> set (a # pre)) R = filter (\<lambda>(x, y). x \<in> set pre) R"
    using assms by (intro filter_cong) force+
  then show ?thesis by (simp add: settled_def)
qed

lemma settled_taken:
  assumes "a \<notin> fst ` set R"
  shows "settled paired ((a, c) # R) (a # pre) = settled (insert c (insert a paired)) R pre"
proof -
  have "filter (\<lambda>(x, y). x \<in> set (a # pre)) R = filter (\<lambda>(x, y). x \<in> set pre) R"
    using assms by (intro filter_cong) force+
  then show ?thesis by (auto simp: settled_def names_of_Cons)
qed

lemma best_opponent_find:
  "map_option username (best_opponent lo paired p cs)
     = first_choice lo paired (username p) (map username cs)"
  by (induction cs) (auto simp: first_choice_def blocked_def)

lemma fst_pair_loop: "fst ` set (pair_loop lo paired pool) \<subseteq> username ` set pool"
proof (induction pool arbitrary: paired)
  case Nil
  then show ?case by simp
next
  case (Cons p rest)
  show ?case
  proof (cases "username p \<in> paired \<or> best_opponent lo paired p rest = None")
    case True
    then have "pair_loop lo paired (p # rest) = pair_loop lo paired rest" by auto
    then show ?thesis using Cons.IH[of paired] by auto
  next
    case False
    then obtain opp where "best_opponent lo paired p rest = Some opp" "username p \<notin> paired"
      by auto
    then have "pair_loop lo paired (p # rest) = (username p, username opp)
                 # pair_loop lo (insert (username opp) (insert (username p) paired)) rest"
      by simp
    then show ?thesis
      using Cons.IH[of "insert (username opp) (insert (username p) paired)"] by auto
  qed
qed

lemma pair_loop_append:
  "\<exists>A. pair_loop lo paired (xs @ ys) = A @ pair_loop lo (paired \<union> names_of A) ys \<and>
       fst ` set A \<subseteq> username ` set xs"
proof (induction xs arbitrary: paired)
  case Nil
  have "pair_loop lo paired ([] @ ys) = [] @ pair_loop lo (paired \<union> names_of []) ys" by simp
  then show ?case by (intro exI[of _ "[]"]) simp
next
  case (Cons p xs)
  show ?case
  proof (cases "username p \<in> paired \<or> best_opponent lo paired p (xs @ ys) = None")
    case True
    then have e: "pair_loop lo paired ((p # xs) @ ys) = pair_loop lo paired (xs @ ys)" by auto
    from Cons.IH[of paired] obtain A where
      "pair_loop lo paired (xs @ ys) = A @ pair_loop lo (paired \<union> names_of A) ys"
      "fst ` set A \<subseteq> username ` set xs" by blast
    then show ?thesis unfolding e by (intro exI[of _ A]) auto
  next
    case False
    then obtain opp where o: "best_opponent lo paired p (xs @ ys) = Some opp"
      "username p \<notin> paired" by auto
    let ?paired' = "insert (username opp) (insert (username p) paired)"
    have e: "pair_loop lo paired ((p # xs) @ ys)
               = (username p, username opp) # pair_loop lo ?paired' (xs @ ys)"
      using o by simp
    from Cons.IH[of ?paired'] obtain A where
      A: "pair_loop lo ?paired' (xs @ ys) = A @ pair_loop lo (?paired' \<union> names_of A) ys"
         "fst ` set A \<subseteq> username ` set xs" by blast
    have n: "paired \<union> names_of ((username p, username opp) # A) = ?paired' \<union> names_of A"
      by (auto simp: names_of_Cons)
    show ?thesis unfolding e
      apply (rule exI[of _ "(username p, username opp) # A"])
      using A unfolding n by auto
  qed
qed

lemma pair_loop_walk_partners:
  assumes "distinct (map username pool)" "map username pool = pre @ a # post"
  shows "partners (pair_loop lo paired pool) a =
           (if a \<in> settled paired (pair_loop lo paired pool) pre then {}
            else (case first_choice lo (settled paired (pair_loop lo paired pool) pre) a post of
                    None \<Rightarrow> {}
                  | Some c \<Rightarrow> {c}))"
proof -
  from assms(2) obtain xs p rest where
    pool: "pool = xs @ p # rest" and xs: "map username xs = pre"
    and p: "username p = a" and rest: "map username rest = post"
    by (auto simp: map_eq_append_conv Cons_eq_map_conv)
  from pair_loop_append[of lo paired xs "p # rest"] obtain A where
    A: "pair_loop lo paired pool = A @ pair_loop lo (paired \<union> names_of A) (p # rest)"
       "fst ` set A \<subseteq> username ` set xs" unfolding pool by blast
  define P where "P = paired \<union> names_of A"
  define B where "B = pair_loop lo P (p # rest)"
  have R: "pair_loop lo paired pool = A @ B" using A(1) by (simp add: B_def P_def)
  have d: "a \<notin> set pre" "a \<notin> set post" "set pre \<inter> set post = {}"
    using assms by auto
  have fa: "fst ` set A \<subseteq> set pre" using A(2) xs by auto
  have "fst ` set B \<subseteq> username ` set (p # rest)" unfolding B_def by (rule fst_pair_loop)
  then have fb: "fst ` set B \<subseteq> insert a (set post)" using p rest by auto
  have f1: "filter (\<lambda>(x, y). x \<in> set pre) A = A"
    using fa by (force simp: filter_id_conv)
  have f2: "filter (\<lambda>(x, y). x \<in> set pre) B = []"
    using fb d by (force simp: filter_empty_conv)
  have st: "settled paired (pair_loop lo paired pool) pre = P"
    unfolding R settled_def by (simp add: f1 f2 P_def)
  have pa: "partners A a = {}" using fa d(1) by (auto simp: partners_empty_iff)
  have pr: "partners (pair_loop lo Q rest) a = {}" for Q
  proof -
    have "fst ` set (pair_loop lo Q rest) \<subseteq> username ` set rest" by (rule fst_pair_loop)
    then show ?thesis using rest d(2) by (auto simp: partners_empty_iff)
  qed
  have pw: "partners (pair_loop lo paired pool) a = partners B a"
    unfolding R by (simp add: partners_append pa)
  have fc: "first_choice lo P a post = map_option username (best_opponent lo P p rest)"
    using best_opponent_find[of lo P p rest] p rest by simp
  show ?thesis
  proof (cases "a \<in> P")
    case True
    then have "B = pair_loop lo P rest" using p by (simp add: B_def)
    then show ?thesis unfolding pw st using True pr by simp
  next
    case False
    show ?thesis
    proof (cases "best_opponent lo P p rest")
      case None
      then have "B = pair_loop lo P rest" using p False by (simp add: B_def)
      then show ?thesis unfolding pw st using False pr fc None by simp
    next
      case (Some opp)
      then have "B = (a, username opp)
                   # pair_loop lo (insert (username opp) (insert a P)) rest"
        using p False by (simp add: B_def)
      then show ?thesis unfolding pw st using False pr fc Some by (simp add: partners_Cons)
    qed
  qed
qed

lemma pair_loop_order:
  "pair_loop lo paired pool = r1 @ (a, b) # r2 \<Longrightarrow>
   \<exists>pre post. map username pool = pre @ a # post \<and> fst ` set r1 \<subseteq> set pre"
proof (induction pool arbitrary: paired r1)
  case Nil
  then show ?case by simp
next
  case (Cons p rest)
  have skip: "\<exists>pre post. map username (p # rest) = pre @ a # post \<and> fst ` set r1 \<subseteq> set pre"
    if "pair_loop lo paired rest = r1 @ (a, b) # r2"
  proof -
    from Cons.IH[OF that] obtain pre post where
      h: "map username rest = pre @ a # post" "fst ` set r1 \<subseteq> set pre" by blast
    show ?thesis
      apply (rule exI[of _ "username p # pre"])
      apply (rule exI[of _ post])
      using h by auto
  qed
  show ?case
  proof (cases "username p \<in> paired \<or> best_opponent lo paired p rest = None")
    case True
    then have "pair_loop lo paired (p # rest) = pair_loop lo paired rest" by auto
    then show ?thesis using Cons.prems skip by simp
  next
    case False
    then obtain opp where o: "best_opponent lo paired p rest = Some opp"
      "username p \<notin> paired" by auto
    let ?paired' = "insert (username opp) (insert (username p) paired)"
    have eq: "(username p, username opp) # pair_loop lo ?paired' rest = r1 @ (a, b) # r2"
      using Cons.prems o by simp
    show ?thesis
    proof (cases r1)
      case Nil
      then have "a = username p" using eq by simp
      then show ?thesis using Nil
        by (intro exI[of _ "[]"] exI[of _ "map username rest"]) simp
    next
      case (Cons x r1')
      then have x: "x = (username p, username opp)"
        and r: "pair_loop lo ?paired' rest = r1' @ (a, b) # r2"
        using eq by simp_all
      from Cons.IH[OF r] obtain pre post where
        h: "map username rest = pre @ a # post" "fst ` set r1' \<subseteq> set pre" by blast
      show ?thesis
        apply (rule exI[of _ "username p # pre"])
        apply (rule exI[of _ post])
        using h Cons x by auto
    qed
  qed
qed

lemma pair_loop_walk:
  assumes "distinct (map username pool)"
  shows "walk_split lo paired (map username pool) (pair_loop lo paired pool)"
  unfolding walk_split_def
  using pair_loop_order[of lo paired pool] pair_loop_walk_partners[OF assms, of _ _ _ lo paired]
  by blast

lemma walk_split_Nil:
  assumes "walk_split lo paired [] R"
  shows "R = []"
proof (cases R)
  case Nil
  then show ?thesis .
next
  case (Cons x r2)
  then have "R = [] @ (fst x, snd x) # r2" by simp
  with assms obtain pre post where "[] = pre @ fst x # post"
    unfolding walk_split_def by blast
  then show ?thesis by simp
qed

lemma walk_split_order:
  "walk_split lo paired names R \<Longrightarrow> R = r1 @ (a, b) # r2 \<Longrightarrow>
   \<exists>pre post. names = pre @ a # post \<and> fst ` set r1 \<subseteq> set pre"
  unfolding walk_split_def by blast

lemma walk_split_partners:
  "walk_split lo paired names R \<Longrightarrow> names = pre @ a # post \<Longrightarrow>
   partners R a =
     (if a \<in> settled paired R pre then {}
      else (case first_choice lo (settled paired R pre) a post of
              None \<Rightarrow> {}
            | Some c \<Rightarrow> {c}))"
  unfolding walk_split_def by blast

lemma split_head:
  assumes "distinct (a # ns)" "a # ns = pre @ x # post"
  shows "(pre = [] \<and> x = a \<and> post = ns) \<or> (\<exists>pre'. pre = a # pre' \<and> ns = pre' @ x # post \<and> x \<noteq> a)"
  using assms by (cases pre) auto

lemma walk_split_skip:
  assumes w: "walk_split lo paired (a # ns) R" and d: "distinct (a # ns)"
      and e: "partners R a = {}"
  shows "walk_split lo paired ns R"
proof -
  have na: "a \<notin> fst ` set R" using e by (simp add: partners_empty_iff)
  show ?thesis
    unfolding walk_split_def
  proof (intro conjI allI impI)
    fix r1 x y r2
    assume R: "R = r1 @ (x, y) # r2"
    from walk_split_order[OF w R] obtain pre post where
      h: "a # ns = pre @ x # post" "fst ` set r1 \<subseteq> set pre" by blast
    have "x \<noteq> a" using na R by force
    with split_head[OF d h(1)] obtain pre' where
      p: "pre = a # pre'" "ns = pre' @ x # post" by auto
    have "fst ` set r1 \<subseteq> set pre'" using h(2) p(1) na R by force
    with p(2) show "\<exists>pre post. ns = pre @ x # post \<and> fst ` set r1 \<subseteq> set pre" by blast
  next
    fix pre x post
    assume "ns = pre @ x # post"
    then have "a # ns = (a # pre) @ x # post" by simp
    from walk_split_partners[OF w this]
    show "partners R x =
           (if x \<in> settled paired R pre then {}
            else (case first_choice lo (settled paired R pre) x post of
                    None \<Rightarrow> {}
                  | Some c \<Rightarrow> {c}))"
      unfolding settled_skip[OF na] .
  qed
qed

lemma walk_split_take:
  assumes w: "walk_split lo paired (a # ns) R" and d: "distinct (a # ns)"
      and e: "partners R a = {c}"
  shows "\<exists>r2. R = (a, c) # r2 \<and> walk_split lo (insert c (insert a paired)) ns r2"
proof -
  have "(a, c) \<in> set R" using e by (simp add: partners_member[symmetric])
  then obtain r1 r2 where R: "R = r1 @ (a, c) # r2" by (meson split_list)
  from walk_split_order[OF w R] obtain pre post where
    h: "a # ns = pre @ a # post" "fst ` set r1 \<subseteq> set pre" by blast
  from split_head[OF d h(1)] have "pre = []" by auto
  with h(2) have "r1 = []" by simp
  with R have R2: "R = (a, c) # r2" by simp
  have na: "a \<notin> fst ` set r2"
  proof
    assume "a \<in> fst ` set r2"
    then obtain y where "(a, y) \<in> set r2" by force
    then obtain s1 s2 where "r2 = s1 @ (a, y) # s2" by (meson split_list)
    then have "R = ((a, c) # s1) @ (a, y) # s2" using R2 by simp
    from walk_split_order[OF w this] obtain pre post where
      q: "a # ns = pre @ a # post" "fst ` set ((a, c) # s1) \<subseteq> set pre" by blast
    from split_head[OF d q(1)] have "pre = []" by auto
    with q(2) show False by simp
  qed
  have "walk_split lo (insert c (insert a paired)) ns r2"
    unfolding walk_split_def
  proof (intro conjI allI impI)
    fix s1 x y s2
    assume r: "r2 = s1 @ (x, y) # s2"
    then have "R = ((a, c) # s1) @ (x, y) # s2" using R2 by simp
    from walk_split_order[OF w this] obtain pre post where
      q: "a # ns = pre @ x # post" "fst ` set ((a, c) # s1) \<subseteq> set pre" by blast
    have "x \<noteq> a" using na r by force
    with split_head[OF d q(1)] obtain pre' where
      p: "pre = a # pre'" "ns = pre' @ x # post" by auto
    have "fst ` set s1 \<subseteq> set pre'" using q(2) p(1) na r by force
    with p(2) show "\<exists>pre post. ns = pre @ x # post \<and> fst ` set s1 \<subseteq> set pre" by blast
  next
    fix pre x post
    assume n: "ns = pre @ x # post"
    then have xa: "x \<noteq> a" using d by auto
    from n have "a # ns = (a # pre) @ x # post" by simp
    from walk_split_partners[OF w this]
    show "partners r2 x =
           (if x \<in> settled (insert c (insert a paired)) r2 pre then {}
            else (case first_choice lo (settled (insert c (insert a paired)) r2 pre) x post of
                    None \<Rightarrow> {}
                  | Some c \<Rightarrow> {c}))"
      unfolding R2 settled_taken[OF na] using xa by (simp add: partners_Cons)
  qed
  with R2 show ?thesis by blast
qed

lemma walk_split_unique:
  "walk_split lo paired (map username pool) R \<Longrightarrow> distinct (map username pool) \<Longrightarrow>
   R = pair_loop lo paired pool"
proof (induction pool arbitrary: paired R)
  case Nil
  then show ?case using walk_split_Nil by simp
next
  case (Cons p rest)
  let ?a = "username p"
  have w: "walk_split lo paired (?a # map username rest) R" using Cons.prems(1) by simp
  have d: "distinct (?a # map username rest)" using Cons.prems(2) by simp
  have dr: "distinct (map username rest)" using d by simp
  have "?a # map username rest = [] @ ?a # map username rest" by simp
  from walk_split_partners[OF w this]
  have s: "partners R ?a =
            (if ?a \<in> paired then {}
             else (case first_choice lo paired ?a (map username rest) of
                     None \<Rightarrow> {}
                   | Some c \<Rightarrow> {c}))" by simp
  have fc: "first_choice lo paired ?a (map username rest)
              = map_option username (best_opponent lo paired p rest)"
    by (simp add: best_opponent_find)
  show ?case
  proof (cases "?a \<in> paired \<or> best_opponent lo paired p rest = None")
    case True
    then have e: "partners R ?a = {}" using s fc by auto
    from Cons.IH[OF walk_split_skip[OF w d e] dr] show ?thesis using True by auto
  next
    case False
    then obtain opp where o: "best_opponent lo paired p rest = Some opp" "?a \<notin> paired"
      by auto
    then have e: "partners R ?a = {username opp}" using s fc by simp
    from walk_split_take[OF w d e] obtain r2 where
      r: "R = (?a, username opp) # r2"
         "walk_split lo (insert (username opp) (insert ?a paired)) (map username rest) r2"
      by blast
    from Cons.IH[OF r(2) dr] show ?thesis using r(1) o by simp
  qed
qed

text \<open>
  On five players without recorded opponents, the walk pairs the first with the second
  and the third with the fourth; leaving the first player out is not a walk.
\<close>

lemma walk_round_five:
  "walk_round (\<lambda>x. None) {} [''a'', ''b'', ''c'', ''d'', ''e''] [(''a'', ''b''), (''c'', ''d'')] \<and>
   \<not> walk_round (\<lambda>x. None) {} [''a'', ''b'', ''c'', ''d'', ''e''] [(''b'', ''c''), (''d'', ''e'')]"
  by code_simp

subsection \<open>One pairing round\<close>

lemma four_player_round:
  assumes "distinct [n1, n2, n3, n4]"
  shows "lichess_style_pairing (fresh_round [(n1, 10, r1), (n2, 10, r2), (n3, 8, r3), (n4, 8, r4)]) ''t''
         = [if r2 > r1 then (n2, n1) else (n1, n2), if r4 > r3 then (n4, n3) else (n3, n4)]"
  using assms
  by (auto simp: lichess_style_pairing_def fresh_round_def available_players_def
      is_player_in_game_def entrant_def sort_desc_def key_greater_def get_last_opponent_def)

lemma sorted_pool_active:
  "tournaments w tid = Some t \<Longrightarrow> sorted_pool w tid = sort_desc (available_players w t)"
  by (simp add: sorted_pool_def)

lemma pairing_active:
  "tournaments w tid = Some t \<Longrightarrow> t_status t = ''active'' \<Longrightarrow>
   lichess_style_pairing w tid = pair_loop (get_last_opponent w tid) {} (sorted_pool w tid)"
  by (simp add: sorted_pool_def lichess_style_pairing_def)

lemma no_immediate_rematch:
  "(a, b) \<notin> set (lichess_style_pairing (set_last_opponent w tid a b) tid)"
  "(b, a) \<notin> set (lichess_style_pairing (set_last_opponent w tid a b) tid)"
  using pairing_never_blocked[of a b "set_last_opponent w tid a b" tid]
        pairing_never_blocked[of b a "set_last_opponent w tid a b" tid]
        last_opponent_recorded(2)[of w tid a b]
  by (auto simp: blocked_def)

lemma names_available:
  "map username (available_players w t)
     = map fst (filter (\<lambda>(name, pd). name \<notin> paused_users w \<and> name \<notin> players_in_game_menu w
                                         \<and> \<not> is_player_in_game (games w) name) (players t))"
  by (simp add: available_players_def comp_def case_prod_beta)

lemma distinct_sorted_pool:
  assumes "tournaments w tid = Some t" "distinct (map fst (players t))"
  shows "distinct (map username (sorted_pool w tid))"
proof -
  have "distinct (map username (available_players w t))"
    unfolding names_available using assms(2) by (rule distinct_map_filter)
  moreover have "mset (map username (sort_desc (available_players w t)))
                   = mset (map username (available_players w t))"
    by (simp add: mset_sort_desc)
  ultimately show ?thesis
    unfolding sorted_pool_active[OF assms(1)] using mset_eq_imp_distinct_iff by blast
qed

text \<open>
  Claim C3. For an active tournament (its players dictionary having distinct keys): the
  pool is the available players sorted in descending order of (score, rating). The round
  is the top-down walk over that pool: its pairs are listed in pool order of their first
  players, and each player that is still unpaired when the walk reaches it is paired with
  the first later candidate that is still unpaired and is neither its recorded last
  opponent nor has it as recorded last opponent, and with nobody else; a player with no
  such candidate, like a player already paired, picks nobody. The round is the only list
  of pairs with this property. Hence every pair joins two players that were both still
  unpaired and are not barred, every pool entry between them was already paired or is
  barred, and a player left out has only later entries that are paired or barred. Two
  players just recorded as each other's last opponent are not paired by the next round, in
  either order. Four available players with scores 10, 10, 8, 8 and no recorded last
  opponent are paired first with second and third with fourth.
\<close>

theorem pairing_round:
  assumes "tournaments w tid = Some t" "t_status t = ''active''"
      and "distinct (map fst (players t))"
  shows "sorted_wrt (\<lambda>x y. \<not> key_greater y x) (sorted_pool w tid) \<and>
         mset (sorted_pool w tid) = mset (available_players w t) \<and>
         walk_round (get_last_opponent w tid) {} (map username (sorted_pool w tid))
           (lichess_style_pairing w tid) \<and>
         (\<forall>R. walk_round (get_last_opponent w tid) {} (map username (sorted_pool w tid)) R
               \<longrightarrow> R = lichess_style_pairing w tid) \<and>
         (\<forall>r1 a b r2. lichess_style_pairing w tid = r1 @ (a, b) # r2 \<longrightarrow>
            \<not> blocked (get_last_opponent w tid) a b \<and> a \<notin> names_of r1 \<and> b \<notin> names_of r1 \<and>
            (\<exists>pre mid post. map username (sorted_pool w tid) = pre @ a # mid @ b # post \<and>
               (\<forall>d \<in> set mid. d \<in> names_of r1 \<or> blocked (get_last_opponent w tid) a d))) \<and>
         (\<forall>pre a post. map username (sorted_pool w tid) = pre @ a # post \<and>
            a \<notin> names_of (lichess_style_pairing w tid) \<longrightarrow>
            (\<forall>d \<in> set post. d \<in> names_of (lichess_style_pairing w tid)
                              \<or> blocked (get_last_opponent w tid) a d)) \<and>
         (\<forall>a b. (a, b) \<notin> set (lichess_style_pairing (set_last_opponent w tid a b) tid) \<and>
                 (b, a) \<notin> set (lichess_style_pairing (set_last_opponent w tid a b) tid)) \<and>
         (\<forall>n1 n2 n3 n4 r1 r2 r3 r4. distinct [n1, n2, n3, n4] \<longrightarrow>
            lichess_style_pairing
                (fresh_round [(n1, 10, r1), (n2, 10, r2), (n3, 8, r3), (n4, 8, r4)]) ''t''
              = [if r2 > r1 then (n2, n1) else (n1, n2), if r4 > r3 then (n4, n3) else (n3, n4)])"
proof (intro conjI allI impI)
  show "sorted_wrt (\<lambda>x y. \<not> key_greater y x) (sorted_pool w tid)"
    unfolding sorted_pool_active[OF assms(1)] by (rule sorted_sort_desc)
  show "mset (sorted_pool w tid) = mset (available_players w t)"
    unfolding sorted_pool_active[OF assms(1)] by (rule mset_sort_desc)
next
  show "walk_round (get_last_opponent w tid) {} (map username (sorted_pool w tid))
           (lichess_style_pairing w tid)"
    unfolding walk_split_iff pairing_active[OF assms(1,2)]
    by (rule pair_loop_walk[OF distinct_sorted_pool[OF assms(1,3)]])
next
  fix R
  assume "walk_round (get_last_opponent w tid) {} (map username (sorted_pool w tid)) R"
  then have "walk_split (get_last_opponent w tid) {} (map username (sorted_pool w tid)) R"
    unfolding walk_split_iff .
  from walk_split_unique[OF this distinct_sorted_pool[OF assms(1,3)]]
  show "R = lichess_style_pairing w tid"
    unfolding pairing_active[OF assms(1,2)] .
next
  fix r1 a b r2
  assume "lichess_style_pairing w tid = r1 @ (a, b) # r2"
  then have "pair_loop (get_last_opponent w tid) {} (sorted_pool w tid) = r1 @ (a, b) # r2"
    unfolding pairing_active[OF assms(1,2)] .
  from pair_loop_pairs[OF this]
  show "\<not> blocked (get_last_opponent w tid) a b" "a \<notin> names_of r1" "b \<notin> names_of r1"
    "\<exists>pre mid post. map username (sorted_pool w tid) = pre @ a # mid @ b # post \<and>
       (\<forall>d \<in> set mid. d \<in> names_of r1 \<or> blocked (get_last_opponent w tid) a d)"
    by simp_all
next
  fix pre a post
  assume h: "map username (sorted_pool w tid) = pre @ a # post \<and>
             a \<notin> names_of (lichess_style_pairing w tid)"
  then have "a \<notin> {} \<union> names_of (pair_loop (get_last_opponent w tid) {} (sorted_pool w tid))"
    unfolding pairing_active[OF assms(1,2)] by simp
  from pair_loop_unpaired[OF _ this] h
  show "\<forall>d \<in> set post. d \<in> names_of (lichess_style_pairing w tid)
                         \<or> blocked (get_last_opponent w tid) a d"
    unfolding pairing_active[OF assms(1,2)] by simp
next
  fix a b
  show "(a, b) \<notin> set (lichess_style_pairing (set_last_opponent w tid a b) tid)"
       "(b, a) \<notin> set (lichess_style_pairing (set_last_opponent w tid a b) tid)"
    by (rule no_immediate_rematch)+
next
  fix n1 n2 n3 n4 :: string and r1 r2 r3 r4 :: int
  assume "distinct [n1, n2, n3, n4]"
  then show "lichess_style_pairing
                (fresh_round [(n1, 10, r1), (n2, 10, r2), (n3, 8, r3), (n4, 8, r4)]) ''t''
              = [if r2 > r1 then (n2, n1) else (n1, n2), if r4 > r3 then (n4, n3) else (n3, n4)]"
    by (rule four_player_round)
qed

text \<open>
  The theorem in the round after player1 met player2 and player3 met player4, where the
  walk property alone determines the round, and in the first round of four such players.
\<close>

theorem pairing_round_witness:
  "lichess_style_pairing second_round ''t1''
     = [(''player1'', ''player3''), (''player2'', ''player4'')] \<and>
   \<not> blocked (get_last_opponent second_round ''t1'') ''player1'' ''player3'' \<and>
   (''player3'', ''player4'') \<notin> set (lichess_style_pairing second_round ''t1'') \<and>
   lichess_style_pairing
      (fresh_round [(''player1'', 10, 1500), (''player2'', 10, 1500),
                    (''player3'', 8, 1400), (''player4'', 8, 1400)]) ''t''
     = [(''player1'', ''player2''), (''player3'', ''player4'')]"
proof -
  have t: "tournaments second_round ''t1'' = Some four_players"
    by (simp add: second_round_def set_last_opponent_def first_round_def Let_def)
  have a: "t_status four_players = ''active''" by (simp add: four_players_def)
  have dp: "distinct (map fst (players four_players))" by (simp add: four_players_def)
  have n: "map username (sorted_pool second_round ''t1'')
             = [''player1'', ''player2'', ''player3'', ''player4'']"
    by code_simp
  have wr: "walk_round (get_last_opponent second_round ''t1'') {}
              [''player1'', ''player2'', ''player3'', ''player4'']
              [(''player1'', ''player3''), (''player2'', ''player4'')]"
    by code_simp
  have d: "distinct [''player1'', ''player2'', ''player3'', ''player4'']" by simp
  note th = pairing_round[OF t a dp]
  have e0: "[(''player1'', ''player3''), (''player2'', ''player4'')]
              = lichess_style_pairing second_round ''t1''"
    using th[THEN conjunct2, THEN conjunct2, THEN conjunct2, THEN conjunct1, rule_format,
             of "[(''player1'', ''player3''), (''player2'', ''player4'')]"] wr
    unfolding n by simp
  then have e: "lichess_style_pairing second_round ''t1''
             = [] @ (''player1'', ''player3'') # [(''player2'', ''player4'')]" by simp
  note c5 = th[THEN conjunct2, THEN conjunct2, THEN conjunct2, THEN conjunct2, THEN conjunct1,
               rule_format, OF e]
  note c8 = th[THEN conjunct2, THEN conjunct2, THEN conjunct2, THEN conjunct2, THEN conjunct2,
               THEN conjunct2, THEN conjunct2, rule_format, OF d, of 1500 1500 1400 1400]
  have s: "set_last_opponent (set_last_opponent first_round ''t1'' ''player1'' ''player2'')
             ''t1'' ''player3'' ''player4'' = second_round"
    by (simp add: second_round_def)
  have w: "tournaments (set_last_opponent first_round ''t1'' ''player1'' ''player2'') ''t1''
             = Some four_players"
    by (simp add: set_last_opponent_def first_round_def Let_def)
  note th' = pairing_round[OF w a dp]
  note c7 = th'[THEN conjunct2, THEN conjunct2, THEN conjunct2, THEN conjunct2, THEN conjunct2,
               THEN conjunct2, THEN conjunct1, rule_format, of "''player3''" "''player4''"]
  from e0 c5 c7 c8 show ?thesis unfolding s by simp
qed
section \<open>Verification of the match session\<close>

text \<open>
  Claim C9. A move action on a session whose status is finished or canceled leaves the
  whole session as it was: board, move log, winner, clock and every flag. When the sender is
  one of the two players, the only effect is the \<open>game_canceled\<close> reply.
\<close>

theorem closed_session_immutable:
  assumes "status s = Some ''finished'' \<or> status s = Some ''canceled''"
  shows "snd (on_make_move now user (Some s) rq) = Some s \<and>
         (user = Some (ms_white s) \<or> user = Some (ms_black s) \<longrightarrow>
            fst (on_make_move now user (Some s) rq) = [GameCanceled])"
  using assms by (auto simp: on_make_move_def)

text \<open>
  The same request on the same session while it is still being played puts a white piece
  on position 13.
\<close>

lemma open_session_changes:
  "board (game (the (snd (on_make_move 12 (Some ''anna'') (Some open_session) a_move)))) ! 13
     = Some White \<and>
   board (game open_session) ! 13 = None"
  by code_simp

text \<open>
  The theorem for white's request on that session after it has finished.
\<close>

theorem closed_session_immutable_witness:
  "snd (on_make_move 12 (Some ''anna'') (Some closed_session) a_move) = Some closed_session \<and>
   fst (on_make_move 12 (Some ''anna'') (Some closed_session) a_move) = [GameCanceled]"
proof -
  have a: "status closed_session = Some ''finished'' \<or> status closed_session = Some ''canceled''"
    by (simp add: closed_session_def)
  have u: "Some ''anna'' = Some (ms_white closed_session)"
    by (simp add: closed_session_def open_session_def)
  from closed_session_immutable[OF a, of 12 "Some ''anna''" a_move] u show ?thesis by simp
qed

end
